theory Spec2Isabelle
  imports Main "HOL-Library.Sublist"
begin

section \<open>The call throttle of \<^verbatim>\<open>python_mpd/utils.py\<close>\<close>

text \<open>
  The class \<^verbatim>\<open>Throttle\<close> is a method decorator: \<^verbatim>\<open>Throttle(min_time, limit_no_throttle)\<close>
  applied to a callable returns the closure \<^verbatim>\<open>wrapper\<close>, which keeps per host object a
  dictionary \<^verbatim>\<open>host._throttle\<close> from \<^verbatim>\<open>id(self)\<close> to the two-element list
  \<^verbatim>\<open>[threading.Lock(), None]\<close>.

  The embedding passes the state explicitly.  The state holds what the wrapper reads and
  writes: the wall clock (\<^verbatim>\<open>datetime.now()\<close>), the \<^verbatim>\<open>_throttle\<close> attribute of every object,
  and a counter of how often the body of the decorated callable has been run (the
  observation behind "the delegate is executed").  Times are integers (microseconds, the
  resolution of \<^verbatim>\<open>datetime\<close> and \<^verbatim>\<open>timedelta\<close>).
\<close>

subsection \<open>Data\<close>

type_synonym datetime = int
type_synonym timedelta = int

text \<open>Objects that can carry the \<^verbatim>\<open>_throttle\<close> attribute: an ordinary object (a method's
  receiver, a first positional argument) or a \<^verbatim>\<open>wrapper\<close> function object, each by identity.\<close>

datatype host = Object nat | Function nat

text \<open>The list \<^verbatim>\<open>[threading.Lock(), None]\<close>: element 0 is the lock (here: whether it is
  held), element 1 the time stamp.\<close>

record entry =
  locked :: bool
  last_success :: "datetime option"

record state =
  now :: datetime
  throttle_attr :: "host \<Rightarrow> (nat \<Rightarrow> entry option) option"
  executed :: nat

text \<open>The instance attributes of a \<^verbatim>\<open>Throttle\<close> object, and its \<^verbatim>\<open>id\<close>.\<close>

record Throttle =
  ident :: nat
  min_time :: timedelta
  limit_no_throttle :: "timedelta option"

text \<open>A call \<^verbatim>\<open>f(*args, **kwargs)\<close>: the identities of the positional arguments and the
  truth value of the keyword \<^verbatim>\<open>no_throttle\<close> (absent is \<^verbatim>\<open>False\<close>).\<close>

record args =
  positional :: "nat list"
  no_throttle :: bool

text \<open>What a call returns: a value (\<open>None\<close> is Python's \<^verbatim>\<open>None\<close>), or, from a coroutine
  function, a coroutine object whose body has not started.  A raised exception is the
  left summand of the result.\<close>

datatype coroutine = ThrottledValue | MethodBody "nat list"

datatype 'v retval = Value "'v option" | Coroutine coroutine

text \<open>A callable: what the decorator inspects of it (\<^verbatim>\<open>__self__\<close>, \<^verbatim>\<open>__qualname__\<close>,
  \<^verbatim>\<open>asyncio.iscoroutinefunction\<close>) and what calling it does.\<close>

record ('x, 'v) callable =
  self_attr :: "nat option"
  qualname :: string
  iscoroutinefunction :: bool
  invoke :: "args \<Rightarrow> state \<Rightarrow> ('x + 'v retval) \<times> state"

subsection \<open>The decorated callable\<close>

text \<open>The body of the decorated callable is arbitrary code.  It is given the positional
  arguments and the time at which it starts, and yields its outcome (an exception or a
  value) and the time at which it ends; it does not touch any \<^verbatim>\<open>_throttle\<close> attribute.\<close>

type_synonym ('x, 'v) body = "nat list \<Rightarrow> datetime \<Rightarrow> ('x + 'v option) \<times> datetime"

definition run_body :: "('x, 'v) body \<Rightarrow> nat list \<Rightarrow> state \<Rightarrow> ('x + 'v option) \<times> state" where
  "run_body b ps s =
     (case b ps (now s) of (r, t) \<Rightarrow> (r, s\<lparr>now := t, executed := Suc (executed s)\<rparr>))"

text \<open>\<^verbatim>\<open>def f(...)\<close> runs its body when called; \<^verbatim>\<open>async def f(...)\<close> returns a coroutine
  object and runs nothing.\<close>

definition def_callable :: "nat option \<Rightarrow> string \<Rightarrow> bool \<Rightarrow> ('x, 'v) body \<Rightarrow> ('x, 'v) callable" where
  "def_callable slf qn is_async b =
     \<lparr> self_attr = slf, qualname = qn, iscoroutinefunction = is_async,
       invoke = (\<lambda>a s.
         if is_async then (Inr (Coroutine (MethodBody (positional a))), s)
         else (case run_body b (positional a) s of
                 (Inl x, s') \<Rightarrow> (Inl x, s')
               | (Inr v, s') \<Rightarrow> (Inr (Value v), s'))) \<rparr>"

text \<open>Awaiting a coroutine object runs its body: the stand-in returns \<^verbatim>\<open>None\<close>, the
  method's coroutine runs the method body.\<close>

definition await :: "('x, 'v) body \<Rightarrow> coroutine \<Rightarrow> state \<Rightarrow> ('x + 'v option) \<times> state" where
  "await b c s = (case c of ThrottledValue \<Rightarrow> (Inr None, s) | MethodBody ps \<Rightarrow> run_body b ps s)"

subsection \<open>\<^verbatim>\<open>Throttle.__call__\<close>\<close>

text \<open>\<^verbatim>\<open>throttled_value()\<close>: \<^verbatim>\<open>None\<close>, through the calling convention of the method.\<close>

definition throttled_value :: "bool \<Rightarrow> 'v retval" where
  "throttled_value is_async = (if is_async then Coroutine ThrottledValue else Value None)"

text \<open>\<^verbatim>\<open>s.split('.<locals>.')[-1]\<close>: the separators are found from the left, without
  overlap; the last piece is what follows the last one found.\<close>

fun last_piece :: "string \<Rightarrow> string \<Rightarrow> string" where
  "last_piece cur [] = cur"
| "last_piece cur (c # cs) =
     (if prefix ''.<locals>.'' (c # cs) then last_piece [] (drop 9 cs)
      else last_piece (cur @ [c]) cs)"

definition is_func :: "('x, 'v) callable \<Rightarrow> bool" where
  "is_func method =
     (self_attr method = None \<and> CHR ''.'' \<notin> set (last_piece [] (qualname method)))"

text \<open>Lines 67 to 72: the object that carries the throttle state of this call.\<close>

definition resolve_host :: "('x, 'v) callable \<Rightarrow> nat \<Rightarrow> args \<Rightarrow> host" where
  "resolve_host method wid a =
     (case self_attr method of
        Some h \<Rightarrow> Object h
      | None \<Rightarrow>
          if is_func method then Function wid
          else (case positional a of [] \<Rightarrow> Function wid | x # _ \<Rightarrow> Object x))"

text \<open>Reading and updating the entry \<^verbatim>\<open>host._throttle[k]\<close>.  The list is mutated in place,
  so an update applies to the entry as it is in the current state.\<close>

definition get_entry :: "state \<Rightarrow> host \<Rightarrow> nat \<Rightarrow> entry option" where
  "get_entry s h k = (case throttle_attr s h of None \<Rightarrow> None | Some d \<Rightarrow> d k)"

definition upd_entry :: "host \<Rightarrow> nat \<Rightarrow> (entry \<Rightarrow> entry) \<Rightarrow> state \<Rightarrow> state" where
  "upd_entry h k f s =
     (case throttle_attr s h of
        None \<Rightarrow> s
      | Some d \<Rightarrow>
          (case d k of
             None \<Rightarrow> s
           | Some e \<Rightarrow> s\<lparr>throttle_attr := (throttle_attr s)(h := Some (d(k := Some (f e))))\<rparr>))"

text \<open>Lines 74 to 79: create \<^verbatim>\<open>host._throttle\<close> and the entry where absent, and read the
  entry.  Here the dictionary is the one on the object itself; a dictionary found through
  another object (a shallow copy, the class) is the subject of the subsection on attribute
  lookup below, whose wrapper is this one when nothing is found through other objects.\<close>

definition lookup_or_create :: "host \<Rightarrow> nat \<Rightarrow> state \<Rightarrow> entry \<times> state" where
  "lookup_or_create h k s =
     (let s1 = (if throttle_attr s h = None
                then s\<lparr>throttle_attr := (throttle_attr s)(h := Some (\<lambda>_. None))\<rparr> else s);
          d = (case throttle_attr s1 h of None \<Rightarrow> (\<lambda>_. None) | Some d \<Rightarrow> d)
      in case d k of
           None \<Rightarrow>
             (\<lparr>locked = False, last_success = None\<rparr>,
              s1\<lparr>throttle_attr := (throttle_attr s1)
                    (h := Some (d(k := Some \<lparr>locked = False, last_success = None\<rparr>)))\<rparr>)
         | Some e \<Rightarrow> (e, s1))"

text \<open>Lines 61 to 95, the closure \<^verbatim>\<open>wrapper\<close>.  Its free variables are \<^verbatim>\<open>self\<close>,
  \<^verbatim>\<open>throttled_value\<close> (here: whether the decorated method is a coroutine function),
  \<^verbatim>\<open>method\<close> and \<^verbatim>\<open>wrapper\<close> itself (here: the identity \<open>wid\<close> of the function object).
  A \<^verbatim>\<open>datetime\<close> is always true, so \<^verbatim>\<open>not throttle[1]\<close> holds exactly when no time stamp is
  recorded.  The \<^verbatim>\<open>finally\<close> clause releases the lock on every way out of the \<^verbatim>\<open>try\<close>.  Time
  passes in the body of the decorated callable only.\<close>

definition wrapper ::
  "Throttle \<Rightarrow> bool \<Rightarrow> nat \<Rightarrow> ('x, 'v) callable \<Rightarrow> args \<Rightarrow> state \<Rightarrow> ('x + 'v retval) \<times> state" where
  "wrapper self is_async wid method a s =
     (let host = resolve_host method wid a in
      case lookup_or_create host (ident self) s of (throttle, s2) \<Rightarrow>
        if locked throttle then (Inr (throttled_value is_async), s2)
        else
          let s3 = upd_entry host (ident self) (\<lambda>e. e\<lparr>locked := True\<rparr>) s2;
              force = (no_throttle a \<or> last_success throttle = None)
          in
            if force \<or> (case last_success throttle of
                           None \<Rightarrow> False
                         | Some t \<Rightarrow> now s3 - t > min_time self)
            then
              (case invoke method (a\<lparr>no_throttle := False\<rparr>) s3 of
                 (Inl x, s4) \<Rightarrow>
                   (Inl x, upd_entry host (ident self) (\<lambda>e. e\<lparr>locked := False\<rparr>) s4)
               | (Inr result, s4) \<Rightarrow>
                   (Inr result,
                    upd_entry host (ident self) (\<lambda>e. e\<lparr>locked := False\<rparr>)
                      (upd_entry host (ident self) (\<lambda>e. e\<lparr>last_success := Some (now s4)\<rparr>) s4)))
            else
              (Inr (throttled_value is_async),
               upd_entry host (ident self) (\<lambda>e. e\<lparr>locked := False\<rparr>) s3))"

text \<open>\<^verbatim>\<open>@wraps(method)\<close> copies \<^verbatim>\<open>__qualname__\<close>; the wrapper is a plain function (no
  \<^verbatim>\<open>__self__\<close>, declared with \<^verbatim>\<open>def\<close>).\<close>

definition make_wrapper ::
  "Throttle \<Rightarrow> bool \<Rightarrow> nat \<Rightarrow> ('x, 'v) callable \<Rightarrow> ('x, 'v) callable" where
  "make_wrapper self is_async wid method =
     \<lparr> self_attr = None, qualname = qualname method, iscoroutinefunction = False,
       invoke = wrapper self is_async wid method \<rparr>"

text \<open>\<^verbatim>\<open>Throttle.__call__\<close>.  The objects it creates get their identities from the
  interpreter; here they are arguments: \<open>wid\<close> for the returned wrapper, and, when
  \<^verbatim>\<open>limit_no_throttle\<close> is set, \<open>inner_id\<close> for the nested \<^verbatim>\<open>Throttle\<close> object and \<open>inner_wid\<close>
  for its wrapper.  Lines 44 and 45 rebind \<^verbatim>\<open>method\<close>; the nested \<^verbatim>\<open>Throttle\<close> has no
  \<^verbatim>\<open>limit_no_throttle\<close> of its own, so its \<^verbatim>\<open>__call__\<close> only builds the wrapper.\<close>

definition rebound_method ::
  "Throttle \<Rightarrow> nat \<Rightarrow> nat \<Rightarrow> ('x, 'v) callable \<Rightarrow> ('x, 'v) callable" where
  "rebound_method self inner_id inner_wid method0 =
     (case limit_no_throttle self of
        None \<Rightarrow> method0
      | Some l \<Rightarrow>
          make_wrapper \<lparr>ident = inner_id, min_time = l, limit_no_throttle = None\<rparr>
            (iscoroutinefunction method0) inner_wid method0)"

definition Throttle_call ::
  "Throttle \<Rightarrow> nat \<Rightarrow> nat \<Rightarrow> nat \<Rightarrow> ('x, 'v) callable \<Rightarrow> ('x, 'v) callable" where
  "Throttle_call self inner_id inner_wid wid method0 =
     (let is_async = iscoroutinefunction method0;
          method = rebound_method self inner_id inner_wid method0
      in make_wrapper self is_async wid method)"

subsection \<open>Vocabulary of the properties\<close>

text \<open>The admission test of lines 81 to 88 as a predicate of the state before the call: the entry is
  absent, or its lock is free and the call is forced, or no time stamp is recorded, or
  more than \<open>T\<close> has passed since the recorded one.\<close>

definition passes :: "state \<Rightarrow> host \<Rightarrow> nat \<Rightarrow> timedelta \<Rightarrow> bool \<Rightarrow> bool" where
  "passes s h k T forced =
     (case get_entry s h k of
        None \<Rightarrow> True
      | Some e \<Rightarrow>
          \<not> locked e \<and>
          (forced \<or> (case last_success e of None \<Rightarrow> True | Some t \<Rightarrow> now s - t > T)))"

definition last_success_of :: "state \<Rightarrow> host \<Rightarrow> nat \<Rightarrow> datetime option" where
  "last_success_of s h k = (case get_entry s h k of None \<Rightarrow> None | Some e \<Rightarrow> last_success e)"

definition lock_held :: "state \<Rightarrow> host \<Rightarrow> nat \<Rightarrow> bool" where
  "lock_held s h k = (case get_entry s h k of None \<Rightarrow> False | Some e \<Rightarrow> locked e)"

text \<open>The outcome \<open>out\<close> of a call of the wrapped operation in state \<open>s\<close> is that of the
  decorated callable itself: it returns (or raises) what a direct call in \<open>s\<close> returns
  (or raises), the clock stands where the direct call leaves it, and the body has run as
  often as in the direct call.  The keyword \<^verbatim>\<open>no_throttle\<close> is not passed on.\<close>

definition runs_delegate ::
  "('x, 'v) callable \<Rightarrow> args \<Rightarrow> state \<Rightarrow> ('x + 'v retval) \<times> state \<Rightarrow> bool" where
  "runs_delegate method0 a s out =
     (case invoke method0 (a\<lparr>no_throttle := False\<rparr>) s of
        (r, s') \<Rightarrow> fst out = r \<and> now (snd out) = now s' \<and> executed (snd out) = executed s')"

text \<open>The hosts of the two entries of a call: the one of the returned wrapper, and the one
  of the nested wrapper that \<^verbatim>\<open>limit_no_throttle\<close> adds.\<close>

definition primary_host ::
  "Throttle \<Rightarrow> nat \<Rightarrow> nat \<Rightarrow> nat \<Rightarrow> ('x, 'v) callable \<Rightarrow> args \<Rightarrow> host" where
  "primary_host self inner_id inner_wid wid method0 a =
     resolve_host (rebound_method self inner_id inner_wid method0) wid a"

definition secondary_host :: "nat \<Rightarrow> ('x, 'v) callable \<Rightarrow> args \<Rightarrow> host" where
  "secondary_host inner_wid method0 a = resolve_host method0 inner_wid a"

text \<open>The state in which \<^verbatim>\<open>method\<close> is called: the entry exists and its lock is held
  (lines 74 to 81).\<close>

definition acquired :: "host \<Rightarrow> nat \<Rightarrow> state \<Rightarrow> state" where
  "acquired h k s = upd_entry h k (\<lambda>e. e\<lparr>locked := True\<rparr>) (snd (lookup_or_create h k s))"

text \<open>The admission test of the nested wrapper, which never sees \<^verbatim>\<open>no_throttle\<close>: the outer wrapper
  pops the keyword before it calls \<^verbatim>\<open>method\<close>.\<close>

definition secondary_passes :: "Throttle \<Rightarrow> state \<Rightarrow> host \<Rightarrow> nat \<Rightarrow> bool" where
  "secondary_passes self s h k =
     (case limit_no_throttle self of None \<Rightarrow> True | Some l \<Rightarrow> passes s h k l False)"

text \<open>The state in which an admitted call calls the decorated callable: the entry of the
  throttle, and that of the nested throttle where \<^verbatim>\<open>limit_no_throttle\<close> is set, exist and
  their locks are held.\<close>

definition delegate_state ::
  "Throttle \<Rightarrow> nat \<Rightarrow> nat \<Rightarrow> nat \<Rightarrow> ('x, 'v) callable \<Rightarrow> args \<Rightarrow> state \<Rightarrow> state" where
  "delegate_state self inner_id inner_wid wid method0 a s =
     (let s3 = acquired (primary_host self inner_id inner_wid wid method0 a) (ident self) s in
      case limit_no_throttle self of
        None \<Rightarrow> s3
      | Some l \<Rightarrow> acquired (secondary_host inner_wid method0 a) inner_id s3)"

text \<open>The locks of both entries released (the two \<^verbatim>\<open>finally\<close> clauses, the nested wrapper's
  first).\<close>

definition released ::
  "Throttle \<Rightarrow> nat \<Rightarrow> nat \<Rightarrow> nat \<Rightarrow> ('x, 'v) callable \<Rightarrow> args \<Rightarrow> state \<Rightarrow> state" where
  "released self inner_id inner_wid wid method0 a s =
     upd_entry (primary_host self inner_id inner_wid wid method0 a) (ident self) (\<lambda>e. e\<lparr>locked := False\<rparr>)
       (case limit_no_throttle self of
          None \<Rightarrow> s
        | Some l \<Rightarrow> upd_entry (secondary_host inner_wid method0 a) inner_id (\<lambda>e. e\<lparr>locked := False\<rparr>) s)"

subsection \<open>Example instances\<close>

text \<open>A method \<^verbatim>\<open>Player.update\<close> that returns 7 three time units after it starts, one that
  raises instead, a state in which no object has a \<^verbatim>\<open>_throttle\<close> attribute, a \<^verbatim>\<open>Throttle\<close> of
  ten time units without and with a limit of five for forced calls, and the call
  \<^verbatim>\<open>wrapper(obj, no_throttle=forced)\<close> of the method on the receiver \<open>obj\<close>.\<close>

definition demo_body :: "(string, nat) body" where
  "demo_body ps t = (Inr (Some 7), t + 3)"

definition failing_body :: "(string, nat) body" where
  "failing_body ps t = (Inl ''ConnectionError'', t + 3)"

definition fresh :: state where
  "fresh = \<lparr>now = 0, throttle_attr = (\<lambda>_. None), executed = 0\<rparr>"

definition plain_throttle :: Throttle where
  "plain_throttle = \<lparr>ident = 1, min_time = 10, limit_no_throttle = None\<rparr>"

definition limited_throttle :: Throttle where
  "limited_throttle = \<lparr>ident = 1, min_time = 10, limit_no_throttle = Some 5\<rparr>"

definition receiver_call :: "nat \<Rightarrow> bool \<Rightarrow> args" where
  "receiver_call obj forced = \<lparr>positional = [obj], no_throttle = forced\<rparr>"

definition slow_limit_throttle :: Throttle where
  "slow_limit_throttle = \<lparr>ident = 1, min_time = 10, limit_no_throttle = Some 50\<rparr>"

text \<open>A method that inspects the lock of the entry \<open>k\<close> of the object \<open>h\<close> and raises if it
  finds the lock held.\<close>

definition lock_probe :: "host \<Rightarrow> nat \<Rightarrow> (string, nat) callable" where
  "lock_probe h k =
     \<lparr> self_attr = None, qualname = ''Player.update'', iscoroutinefunction = False,
       invoke = (\<lambda>a s. (if lock_held s h k then Inl ''locked'' else Inr (Value None), s)) \<rparr>"

subsection \<open>Attribute lookup: dictionaries found through other objects\<close>

text \<open>Lines 74 to 79 reach the dictionary by attribute access: \<^verbatim>\<open>hasattr(host, '_throttle')\<close>
  and \<^verbatim>\<open>host._throttle\<close> find a dictionary that was created on another object, when the
  instance attribute of \<^verbatim>\<open>host\<close> refers to it (\<^verbatim>\<open>copy.copy\<close> of an object that has been called
  copies the reference) or when the class of \<^verbatim>\<open>host\<close> or one of its base classes carries the
  attribute.  In \<^const>\<open>wrapper\<close> above every object has a dictionary of its own.  Here a lookup
  path gives, for every object, the other objects through which its attribute is found, in
  the order of the lookup: the object whose dictionary its instance attribute refers to,
  then its class and the base classes.  The dictionary of a call on \<^verbatim>\<open>host\<close> is the first one
  found on \<^verbatim>\<open>host\<close> and its path; if there is none, line 75 creates one on \<^verbatim>\<open>host\<close> itself.
  (The hosts are objects that accept a new attribute.)\<close>

type_synonym lookup_path = "host \<Rightarrow> host list"

definition dict_owner :: "lookup_path \<Rightarrow> state \<Rightarrow> host \<Rightarrow> host" where
  "dict_owner via s h =
     (case List.find (\<lambda>c. throttle_attr s c \<noteq> None) (h # via h) of None \<Rightarrow> h | Some c \<Rightarrow> c)"

text \<open>Lines 74 to 95 for the object \<open>c\<close> that carries the dictionary.  \<^verbatim>\<open>throttle\<close> is a
  reference to the list in that dictionary, so the lock and the time stamp are those of
  \<open>c\<close>'s entry throughout the call.\<close>

definition wrapper_at ::
  "host \<Rightarrow> Throttle \<Rightarrow> bool \<Rightarrow> ('x, 'v) callable \<Rightarrow> args \<Rightarrow> state \<Rightarrow> ('x + 'v retval) \<times> state" where
  "wrapper_at c self is_async method a s =
     (case lookup_or_create c (ident self) s of (throttle, s2) \<Rightarrow>
        if locked throttle then (Inr (throttled_value is_async), s2)
        else
          let s3 = upd_entry c (ident self) (\<lambda>e. e\<lparr>locked := True\<rparr>) s2;
              force = (no_throttle a \<or> last_success throttle = None)
          in
            if force \<or> (case last_success throttle of
                           None \<Rightarrow> False
                         | Some t \<Rightarrow> now s3 - t > min_time self)
            then
              (case invoke method (a\<lparr>no_throttle := False\<rparr>) s3 of
                 (Inl x, s4) \<Rightarrow>
                   (Inl x, upd_entry c (ident self) (\<lambda>e. e\<lparr>locked := False\<rparr>) s4)
               | (Inr result, s4) \<Rightarrow>
                   (Inr result,
                    upd_entry c (ident self) (\<lambda>e. e\<lparr>locked := False\<rparr>)
                      (upd_entry c (ident self) (\<lambda>e. e\<lparr>last_success := Some (now s4)\<rparr>) s4)))
            else
              (Inr (throttled_value is_async),
               upd_entry c (ident self) (\<lambda>e. e\<lparr>locked := False\<rparr>) s3))"

text \<open>Lines 61 to 95 with the attribute lookup.\<close>

definition wrapper_via ::
  "lookup_path \<Rightarrow> Throttle \<Rightarrow> bool \<Rightarrow> nat \<Rightarrow> ('x, 'v) callable \<Rightarrow> args \<Rightarrow> state \<Rightarrow>
     ('x + 'v retval) \<times> state" where
  "wrapper_via via self is_async wid method a s =
     (let host = resolve_host method wid a
      in wrapper_at (dict_owner via s host) self is_async method a s)"

definition make_wrapper_via ::
  "lookup_path \<Rightarrow> Throttle \<Rightarrow> bool \<Rightarrow> nat \<Rightarrow> ('x, 'v) callable \<Rightarrow> ('x, 'v) callable" where
  "make_wrapper_via via self is_async wid method =
     \<lparr> self_attr = None, qualname = qualname method, iscoroutinefunction = False,
       invoke = wrapper_via via self is_async wid method \<rparr>"

definition rebound_method_via ::
  "lookup_path \<Rightarrow> Throttle \<Rightarrow> nat \<Rightarrow> nat \<Rightarrow> ('x, 'v) callable \<Rightarrow> ('x, 'v) callable" where
  "rebound_method_via via self inner_id inner_wid method0 =
     (case limit_no_throttle self of
        None \<Rightarrow> method0
      | Some l \<Rightarrow>
          make_wrapper_via via \<lparr>ident = inner_id, min_time = l, limit_no_throttle = None\<rparr>
            (iscoroutinefunction method0) inner_wid method0)"

definition Throttle_call_via ::
  "lookup_path \<Rightarrow> Throttle \<Rightarrow> nat \<Rightarrow> nat \<Rightarrow> nat \<Rightarrow> ('x, 'v) callable \<Rightarrow> ('x, 'v) callable" where
  "Throttle_call_via via self inner_id inner_wid wid method0 =
     (let is_async = iscoroutinefunction method0;
          method = rebound_method_via via self inner_id inner_wid method0
      in make_wrapper_via via self is_async wid method)"

text \<open>The objects whose dictionary a call on \<open>h\<close> may use in state \<open>s\<close>: \<open>h\<close> itself, or an
  object on its lookup path that carries a dictionary.  And the entry that \<open>h\<close> finds.\<close>

definition reach :: "lookup_path \<Rightarrow> state \<Rightarrow> host \<Rightarrow> host set" where
  "reach via s h = {c \<in> set (h # via h). c = h \<or> throttle_attr s c \<noteq> None}"

definition get_entry_via :: "lookup_path \<Rightarrow> state \<Rightarrow> host \<Rightarrow> nat \<Rightarrow> entry option" where
  "get_entry_via via s h k = get_entry s (dict_owner via s h) k"

text \<open>Two states agree on the objects in \<open>P\<close>: the clock and the dictionaries of these
  objects are the same.\<close>

definition agree :: "host set \<Rightarrow> state \<Rightarrow> state \<Rightarrow> bool" where
  "agree P s u = (now s = now u \<and> (\<forall>h\<in>P. throttle_attr s h = throttle_attr u h))"

text \<open>Two lookup paths for the examples.  In \<open>same_class\<close> the objects 5 and 6 are instances
  of the class 9.  In \<open>shallow_copy\<close> the object 6 is a \<^verbatim>\<open>copy.copy\<close> of the object 5 taken after
  the first call on 5: its \<^verbatim>\<open>_throttle\<close> is the dictionary created on 5.  And a state in
  which the class 9 carries an empty \<^verbatim>\<open>_throttle\<close> dictionary.\<close>

definition same_class :: lookup_path where
  "same_class = (\<lambda>_. [])(Object 5 := [Object 9], Object 6 := [Object 9])"

definition shallow_copy :: lookup_path where
  "shallow_copy = (\<lambda>_. [])(Object 6 := [Object 5])"

definition class_dict :: state where
  "class_dict = \<lparr>now = 0, throttle_attr = (\<lambda>_. None)(Object 9 := Some (\<lambda>_. None)), executed = 0\<rparr>"

section \<open>Auxiliary facts\<close>

subsection \<open>Entries\<close>

lemma now_upd_entry [simp]: "now (upd_entry h k f s) = now s"
  by (simp add: upd_entry_def split: option.splits)

lemma executed_upd_entry [simp]: "executed (upd_entry h k f s) = executed s"
  by (simp add: upd_entry_def split: option.splits)

lemma get_entry_upd_entry:
  "get_entry (upd_entry h k f s) h' k' =
     (if h' = h \<and> k' = k then map_option f (get_entry s h k) else get_entry s h' k')"
  by (auto simp add: upd_entry_def get_entry_def split: option.splits)

lemma throttle_attr_upd_entry_other:
  "h' \<noteq> h \<Longrightarrow> throttle_attr (upd_entry h k f s) h' = throttle_attr s h'"
  by (simp add: upd_entry_def split: option.splits)

lemma get_entry_now_update [simp]: "get_entry (s\<lparr>now := t\<rparr>) h k = get_entry s h k"
  by (simp add: get_entry_def)

lemma get_entry_executed_update [simp]: "get_entry (s\<lparr>executed := n\<rparr>) h k = get_entry s h k"
  by (simp add: get_entry_def)

lemma upd_entry_same:
  "get_entry s h k = Some e \<Longrightarrow> f e = e \<Longrightarrow> upd_entry h k f s = s"
  by (auto simp add: upd_entry_def get_entry_def fun_upd_idem split: option.splits)

lemma upd_entry_upd_entry:
  "upd_entry h k g (upd_entry h k f s) = upd_entry h k (\<lambda>e. g (f e)) s"
  by (auto simp add: upd_entry_def split: option.splits)

lemma lookup_existing:
  "get_entry s h k = Some e \<Longrightarrow> lookup_or_create h k s = (e, s)"
  by (auto simp add: lookup_or_create_def get_entry_def Let_def split: option.splits)

lemma lookup_fresh_fst:
  "get_entry s h k = None \<Longrightarrow> fst (lookup_or_create h k s) = \<lparr>locked = False, last_success = None\<rparr>"
  by (auto simp add: lookup_or_create_def get_entry_def Let_def split: option.splits)

lemma now_lookup [simp]: "now (snd (lookup_or_create h k s)) = now s"
  by (auto simp add: lookup_or_create_def Let_def split: option.splits)

lemma executed_lookup [simp]: "executed (snd (lookup_or_create h k s)) = executed s"
  by (auto simp add: lookup_or_create_def Let_def split: option.splits)

lemma get_entry_lookup:
  "get_entry (snd (lookup_or_create h k s)) h' k' =
     (if h' = h \<and> k' = k then Some (fst (lookup_or_create h k s)) else get_entry s h' k')"
  by (auto simp add: lookup_or_create_def get_entry_def Let_def split: option.splits)

lemma throttle_attr_lookup_other:
  "h' \<noteq> h \<Longrightarrow> throttle_attr (snd (lookup_or_create h k s)) h' = throttle_attr s h'"
  by (auto simp add: lookup_or_create_def Let_def split: option.splits)

subsection \<open>One wrapper\<close>

lemma wrapper_blocked:
  assumes "\<not> passes s (resolve_host method wid a) (ident self) (min_time self) (no_throttle a)"
  shows "wrapper self is_async wid method a s = (Inr (throttled_value is_async), s)"
proof -
  let ?h = "resolve_host method wid a"
  from assms obtain e where e: "get_entry s ?h (ident self) = Some e"
    by (auto simp: passes_def split: option.splits)
  have l: "lookup_or_create ?h (ident self) s = (e, s)" using e by (rule lookup_existing)
  show ?thesis
  proof (cases "locked e")
    case True
    then show ?thesis by (simp add: wrapper_def l)
  next
    case False
    with assms e obtain t where t: "\<not> no_throttle a" "last_success e = Some t" "\<not> now s - t > min_time self"
      by (auto simp: passes_def split: option.splits)
    have "upd_entry ?h (ident self) (\<lambda>e. e\<lparr>locked := False\<rparr>)
            (upd_entry ?h (ident self) (\<lambda>e. e\<lparr>locked := True\<rparr>) s) = s"
      using e False by (simp add: upd_entry_upd_entry upd_entry_same)
    with False t show ?thesis by (simp add: wrapper_def l)
  qed
qed

lemma wrapper_passes:
  assumes "passes s (resolve_host method wid a) (ident self) (min_time self) (no_throttle a)"
  shows "wrapper self is_async wid method a s =
     (case invoke method (a\<lparr>no_throttle := False\<rparr>) (acquired (resolve_host method wid a) (ident self) s) of
        (Inl x, s4) \<Rightarrow>
          (Inl x, upd_entry (resolve_host method wid a) (ident self) (\<lambda>e. e\<lparr>locked := False\<rparr>) s4)
      | (Inr result, s4) \<Rightarrow>
          (Inr result,
           upd_entry (resolve_host method wid a) (ident self) (\<lambda>e. e\<lparr>locked := False\<rparr>)
             (upd_entry (resolve_host method wid a) (ident self) (\<lambda>e. e\<lparr>last_success := Some (now s4)\<rparr>) s4)))"
proof (cases "get_entry s (resolve_host method wid a) (ident self)")
  case None
  obtain e s2 where l: "lookup_or_create (resolve_host method wid a) (ident self) s = (e, s2)"
    by (cases "lookup_or_create (resolve_host method wid a) (ident self) s")
  with lookup_fresh_fst [OF None] have e: "e = \<lparr>locked = False, last_success = None\<rparr>" by simp
  show ?thesis by (simp add: wrapper_def l e acquired_def Let_def)
next
  case (Some e)
  have l: "lookup_or_create (resolve_host method wid a) (ident self) s = (e, s)"
    using Some by (rule lookup_existing)
  from assms Some have "\<not> locked e"
    and "no_throttle a \<or> last_success e = None \<or> (\<exists>t. last_success e = Some t \<and> now s - t > min_time self)"
    by (auto simp: passes_def split: option.splits)
  then show ?thesis
    by (auto simp add: wrapper_def l acquired_def Let_def split: option.splits)
qed

lemma now_acquired [simp]: "now (acquired h k s) = now s"
  by (simp add: acquired_def)

lemma executed_acquired [simp]: "executed (acquired h k s) = executed s"
  by (simp add: acquired_def)

lemma get_entry_acquired:
  "get_entry (acquired h k s) h' k' =
     (if h' = h \<and> k' = k
      then Some ((case get_entry s h k of None \<Rightarrow> \<lparr>locked = False, last_success = None\<rparr> | Some e \<Rightarrow> e)
                  \<lparr>locked := True\<rparr>)
      else get_entry s h' k')"
  by (cases "get_entry s h k")
     (auto simp add: acquired_def get_entry_upd_entry get_entry_lookup lookup_fresh_fst lookup_existing)

lemma throttle_attr_acquired_other:
  "h' \<noteq> h \<Longrightarrow> throttle_attr (acquired h k s) h' = throttle_attr s h'"
  by (simp add: acquired_def throttle_attr_upd_entry_other throttle_attr_lookup_other)

lemma passes_acquired_other:
  "h' \<noteq> h \<or> k' \<noteq> k \<Longrightarrow> passes (acquired h k s) h' k' T f = passes s h' k' T f"
  by (auto simp add: passes_def get_entry_acquired split: option.splits)

lemma wrapper_passes_obs:
  assumes "passes s (resolve_host method wid a) (ident self) (min_time self) (no_throttle a)"
  shows "fst (wrapper self is_async wid method a s) =
           fst (invoke method (a\<lparr>no_throttle := False\<rparr>) (acquired (resolve_host method wid a) (ident self) s))"
    and "now (snd (wrapper self is_async wid method a s)) =
           now (snd (invoke method (a\<lparr>no_throttle := False\<rparr>) (acquired (resolve_host method wid a) (ident self) s)))"
    and "executed (snd (wrapper self is_async wid method a s)) =
           executed (snd (invoke method (a\<lparr>no_throttle := False\<rparr>) (acquired (resolve_host method wid a) (ident self) s)))"
    and "get_entry (snd (wrapper self is_async wid method a s)) h' k' =
           (let out4 = invoke method (a\<lparr>no_throttle := False\<rparr>) (acquired (resolve_host method wid a) (ident self) s) in
            if h' = resolve_host method wid a \<and> k' = ident self
            then map_option
                   (\<lambda>e. \<lparr>locked = False,
                         last_success = (if isl (fst out4) then last_success e else Some (now (snd out4)))\<rparr>)
                   (get_entry (snd out4) h' k')
            else get_entry (snd out4) h' k')"
    and "h' \<noteq> resolve_host method wid a \<Longrightarrow>
         throttle_attr (snd (wrapper self is_async wid method a s)) h' =
           throttle_attr (snd (invoke method (a\<lparr>no_throttle := False\<rparr>) (acquired (resolve_host method wid a) (ident self) s))) h'"
proof -
  obtain r4 s4 where o: "invoke method (a\<lparr>no_throttle := False\<rparr>) (acquired (resolve_host method wid a) (ident self) s) = (r4, s4)"
    by (cases "invoke method (a\<lparr>no_throttle := False\<rparr>) (acquired (resolve_host method wid a) (ident self) s)")
  note w = wrapper_passes [OF assms, of is_async, unfolded o]
  show "fst (wrapper self is_async wid method a s) =
           fst (invoke method (a\<lparr>no_throttle := False\<rparr>) (acquired (resolve_host method wid a) (ident self) s))"
    by (cases r4) (simp_all add: w o)
  show "now (snd (wrapper self is_async wid method a s)) =
           now (snd (invoke method (a\<lparr>no_throttle := False\<rparr>) (acquired (resolve_host method wid a) (ident self) s)))"
    by (cases r4) (simp_all add: w o)
  show "executed (snd (wrapper self is_async wid method a s)) =
           executed (snd (invoke method (a\<lparr>no_throttle := False\<rparr>) (acquired (resolve_host method wid a) (ident self) s)))"
    by (cases r4) (simp_all add: w o)
  show "get_entry (snd (wrapper self is_async wid method a s)) h' k' =
           (let out4 = invoke method (a\<lparr>no_throttle := False\<rparr>) (acquired (resolve_host method wid a) (ident self) s) in
            if h' = resolve_host method wid a \<and> k' = ident self
            then map_option
                   (\<lambda>e. \<lparr>locked = False,
                         last_success = (if isl (fst out4) then last_success e else Some (now (snd out4)))\<rparr>)
                   (get_entry (snd out4) h' k')
            else get_entry (snd out4) h' k')"
    by (cases r4) (auto simp add: w o get_entry_upd_entry map_option_case split: option.splits)
  show "throttle_attr (snd (wrapper self is_async wid method a s)) h' =
           throttle_attr (snd (invoke method (a\<lparr>no_throttle := False\<rparr>) (acquired (resolve_host method wid a) (ident self) s))) h'"
    if "h' \<noteq> resolve_host method wid a"
    using that by (cases r4) (simp_all add: w o throttle_attr_upd_entry_other)
qed

subsection \<open>The decorated callable under a wrapper\<close>

lemma invoke_def_callable_attr [simp]:
  "throttle_attr (snd (invoke (def_callable slf qn is_async b) a s)) = throttle_attr s"
  by (simp add: def_callable_def run_body_def split: prod.splits sum.splits)

lemma invoke_def_callable_entry [simp]:
  "get_entry (snd (invoke (def_callable slf qn is_async b) a s)) h k = get_entry s h k"
  by (simp add: get_entry_def)

lemma invoke_def_callable_fst:
  "now s = now s0 \<Longrightarrow>
   fst (invoke (def_callable slf qn is_async b) a s) = fst (invoke (def_callable slf qn is_async b) a s0)"
  by (simp add: def_callable_def run_body_def split: prod.splits sum.splits)

lemma invoke_def_callable_now:
  "now s = now s0 \<Longrightarrow>
   now (snd (invoke (def_callable slf qn is_async b) a s)) = now (snd (invoke (def_callable slf qn is_async b) a s0))"
  by (simp add: def_callable_def run_body_def split: prod.splits sum.splits)

lemma invoke_def_callable_executed:
  "now s = now s0 \<Longrightarrow> executed s = executed s0 \<Longrightarrow>
   executed (snd (invoke (def_callable slf qn is_async b) a s)) = executed (snd (invoke (def_callable slf qn is_async b) a s0))"
  by (simp add: def_callable_def run_body_def split: prod.splits sum.splits)

lemma def_callable_sel [simp]:
  "self_attr (def_callable slf qn is_async b) = slf"
  "qualname (def_callable slf qn is_async b) = qn"
  "iscoroutinefunction (def_callable slf qn is_async b) = is_async"
  by (simp_all add: def_callable_def)

lemma make_wrapper_sel [simp]:
  "self_attr (make_wrapper self is_async wid method) = None"
  "qualname (make_wrapper self is_async wid method) = qualname method"
  "invoke (make_wrapper self is_async wid method) = wrapper self is_async wid method"
  by (simp_all add: make_wrapper_def)

lemma not_runs_delegate_throttled:
  "executed s' = executed s \<Longrightarrow>
   \<not> runs_delegate (def_callable slf qn is_async b) a s (Inr (throttled_value is_async), s')"
  by (simp add: runs_delegate_def def_callable_def run_body_def throttled_value_def split: prod.splits sum.splits)

lemma resolve_host_no_throttle [simp]:
  "resolve_host method wid (a\<lparr>no_throttle := f\<rparr>) = resolve_host method wid a"
  by (simp add: resolve_host_def split: option.splits)

lemma invoke_Throttle_call:
  "invoke (Throttle_call self iid iwid wid M) =
     wrapper self (iscoroutinefunction M) wid (rebound_method self iid iwid M)"
  by (simp add: Throttle_call_def Let_def)

lemma last_success_entry_or_new:
  "last_success (case get_entry s h k of None \<Rightarrow> \<lparr>locked = False, last_success = None\<rparr> | Some e \<Rightarrow> e)
     = last_success_of s h k"
  by (simp add: last_success_of_def split: option.splits)

lemma primary_blocked:
  assumes "\<not> passes s (primary_host self iid iwid wid M a) (ident self) (min_time self) (no_throttle a)"
  shows "invoke (Throttle_call self iid iwid wid M) a s = (Inr (throttled_value (iscoroutinefunction M)), s)"
  using assms unfolding invoke_Throttle_call primary_host_def by (rule wrapper_blocked)

lemma one_layer_run:
  fixes b :: "('x, 'v) body"
  assumes M_def: "M = def_callable slf qn is_async b"
  assumes p: "passes s (resolve_host M wid a) (ident self) (min_time self) (no_throttle a)"
  shows "fst (wrapper self asy wid M a s) = fst (invoke M (a\<lparr>no_throttle := False\<rparr>) s)"
    and "now (snd (wrapper self asy wid M a s)) = now (snd (invoke M (a\<lparr>no_throttle := False\<rparr>) s))"
    and "executed (snd (wrapper self asy wid M a s)) = executed (snd (invoke M (a\<lparr>no_throttle := False\<rparr>) s))"
    and "get_entry (snd (wrapper self asy wid M a s)) h' k' =
          (if h' = resolve_host M wid a \<and> k' = ident self
           then Some \<lparr>locked = False,
                      last_success = (if isl (fst (wrapper self asy wid M a s))
                                      then last_success_of s h' k'
                                      else Some (now (snd (wrapper self asy wid M a s))))\<rparr>
           else get_entry s h' k')"
    and "h' \<noteq> resolve_host M wid a \<Longrightarrow> throttle_attr (snd (wrapper self asy wid M a s)) h' = throttle_attr s h'"
proof -
  note obs = wrapper_passes_obs [OF p]
  show "fst (wrapper self asy wid M a s) = fst (invoke M (a\<lparr>no_throttle := False\<rparr>) s)"
    unfolding obs(1) unfolding M_def by (rule invoke_def_callable_fst) simp
  show n: "now (snd (wrapper self asy wid M a s)) = now (snd (invoke M (a\<lparr>no_throttle := False\<rparr>) s))"
    unfolding obs(2) unfolding M_def by (rule invoke_def_callable_now) simp
  show "executed (snd (wrapper self asy wid M a s)) = executed (snd (invoke M (a\<lparr>no_throttle := False\<rparr>) s))"
    unfolding obs(3) unfolding M_def by (rule invoke_def_callable_executed) simp_all
  show "get_entry (snd (wrapper self asy wid M a s)) h' k' =
          (if h' = resolve_host M wid a \<and> k' = ident self
           then Some \<lparr>locked = False,
                      last_success = (if isl (fst (wrapper self asy wid M a s))
                                      then last_success_of s h' k'
                                      else Some (now (snd (wrapper self asy wid M a s))))\<rparr>
           else get_entry s h' k')"
    unfolding obs(4) obs(1) obs(2)
    by (simp add: M_def Let_def get_entry_acquired last_success_entry_or_new)
  show "throttle_attr (snd (wrapper self asy wid M a s)) h' = throttle_attr s h'"
    if "h' \<noteq> resolve_host M wid a"
    using that obs(5) [of h'] by (simp add: M_def throttle_attr_acquired_other)
qed

subsection \<open>The wrapped operation\<close>

lemma runs_delegate_iff:
  "runs_delegate M a s out =
     (fst out = fst (invoke M (a\<lparr>no_throttle := False\<rparr>) s) \<and>
      now (snd out) = now (snd (invoke M (a\<lparr>no_throttle := False\<rparr>) s)) \<and>
      executed (snd out) = executed (snd (invoke M (a\<lparr>no_throttle := False\<rparr>) s)))"
  by (simp add: runs_delegate_def split: prod.splits)

lemma args_no_throttle_idem [simp]:
  "a\<lparr>no_throttle := False\<rparr>\<lparr>no_throttle := False\<rparr> = a\<lparr>no_throttle := False\<rparr>"
  by simp

lemma primary_host_simps:
  "limit_no_throttle self = None \<Longrightarrow> primary_host self iid iwid wid M a = resolve_host M wid a"
  "limit_no_throttle self = Some l \<Longrightarrow>
     primary_host self iid iwid wid M a =
       resolve_host (make_wrapper \<lparr>ident = iid, min_time = l, limit_no_throttle = None\<rparr>
                      (iscoroutinefunction M) iwid M) wid a"
  by (simp_all add: primary_host_def rebound_method_def)

lemma unlimited_run:
  fixes b :: "('x, 'v) body"
  assumes M: "M = def_callable slf qn is_async b"
    and W: "W = Throttle_call self iid iwid wid M"
    and H: "H = primary_host self iid iwid wid M a"
    and lim: "limit_no_throttle self = None"
    and p: "passes s H (ident self) (min_time self) (no_throttle a)"
  shows "runs_delegate M a s (invoke W a s)"
    and "get_entry (snd (invoke W a s)) h' k' =
          (if h' = H \<and> k' = ident self
           then Some \<lparr>locked = False,
                      last_success = (if isl (fst (invoke W a s)) then last_success_of s h' k'
                                      else Some (now (snd (invoke W a s))))\<rparr>
           else get_entry s h' k')"
    and "h' \<noteq> H \<Longrightarrow> throttle_attr (snd (invoke W a s)) h' = throttle_attr s h'"
proof -
  have H': "H = resolve_host M wid a" using H lim by (simp add: primary_host_simps)
  have i: "invoke W a s = wrapper self is_async wid M a s"
    using lim by (simp add: W invoke_Throttle_call rebound_method_def M)
  note r = one_layer_run [where asy = is_async, OF M p [unfolded H']]
  show "runs_delegate M a s (invoke W a s)"
    unfolding runs_delegate_iff i by (simp add: r)
  show "get_entry (snd (invoke W a s)) h' k' =
          (if h' = H \<and> k' = ident self
           then Some \<lparr>locked = False,
                      last_success = (if isl (fst (invoke W a s)) then last_success_of s h' k'
                                      else Some (now (snd (invoke W a s))))\<rparr>
           else get_entry s h' k')"
    unfolding i H' by (rule r(4))
  show "throttle_attr (snd (invoke W a s)) h' = throttle_attr s h'" if "h' \<noteq> H"
    using that unfolding i H' by (rule r(5))
qed

lemma limited_inner:
  fixes b :: "('x, 'v) body"
  assumes M: "M = def_callable slf qn is_async b"
    and W: "W = Throttle_call self iid iwid wid M"
    and H: "H = primary_host self iid iwid wid M a"
    and Hs: "Hs = secondary_host iwid M a"
    and lim: "limit_no_throttle self = Some l"
    and I: "I = make_wrapper \<lparr>ident = iid, min_time = l, limit_no_throttle = None\<rparr> is_async iwid M"
  shows "invoke W a s = wrapper self is_async wid I a s"
    and "H = resolve_host I wid a"
    and "invoke I = wrapper \<lparr>ident = iid, min_time = l, limit_no_throttle = None\<rparr> is_async iwid M"
    and "Hs = resolve_host M iwid a"
  using lim by (simp_all add: W H Hs I invoke_Throttle_call rebound_method_def M primary_host_def secondary_host_def)

lemma limited_run:
  fixes b :: "('x, 'v) body"
  assumes M: "M = def_callable slf qn is_async b"
    and W: "W = Throttle_call self iid iwid wid M"
    and H: "H = primary_host self iid iwid wid M a"
    and Hs: "Hs = secondary_host iwid M a"
    and lim: "limit_no_throttle self = Some l"
    and ne: "iid \<noteq> ident self"
    and p: "passes s H (ident self) (min_time self) (no_throttle a)"
    and ps: "passes s Hs iid l False"
  shows "runs_delegate M a s (invoke W a s)"
    and "get_entry (snd (invoke W a s)) h' k' =
          (if (h' = H \<and> k' = ident self) \<or> (h' = Hs \<and> k' = iid)
           then Some \<lparr>locked = False,
                      last_success = (if isl (fst (invoke W a s)) then last_success_of s h' k'
                                      else Some (now (snd (invoke W a s))))\<rparr>
           else get_entry s h' k')"
    and "h' \<noteq> H \<Longrightarrow> h' \<noteq> Hs \<Longrightarrow> throttle_attr (snd (invoke W a s)) h' = throttle_attr s h'"
proof -
  define sec where "sec = \<lparr>ident = iid, min_time = l, limit_no_throttle = None\<rparr>"
  define I where "I = make_wrapper sec is_async iwid M"
  define a' where "a' = a\<lparr>no_throttle := False\<rparr>"
  define s3 where "s3 = acquired H (ident self) s"
  note li = limited_inner [OF M W H Hs lim I_def [unfolded sec_def], folded sec_def]
  have p': "passes s (resolve_host I wid a) (ident self) (min_time self) (no_throttle a)"
    using p li(2) by simp
  note o = wrapper_passes_obs [where is_async = is_async, OF p', folded li(1) li(2) a'_def s3_def, unfolded li(3)]
  have ps3: "passes s3 (resolve_host M iwid a') (ident sec) (min_time sec) (no_throttle a')"
    using ps ne by (simp add: a'_def s3_def sec_def passes_acquired_other li(4) [symmetric])
  note r = one_layer_run [where asy = is_async, OF M ps3, unfolded a'_def args_no_throttle_idem resolve_host_no_throttle,
      folded a'_def li(4)]
  have fst_eq: "fst (invoke W a s) = fst (invoke M a' s)"
    unfolding o(1) r(1) unfolding M by (rule invoke_def_callable_fst) (simp add: s3_def)
  have now_eq: "now (snd (invoke W a s)) = now (snd (invoke M a' s))"
    unfolding o(2) r(2) unfolding M by (rule invoke_def_callable_now) (simp add: s3_def)
  have ex_eq: "executed (snd (invoke W a s)) = executed (snd (invoke M a' s))"
    unfolding o(3) r(3) unfolding M by (rule invoke_def_callable_executed) (simp_all add: s3_def)
  show "runs_delegate M a s (invoke W a s)"
    unfolding runs_delegate_iff using fst_eq now_eq ex_eq by (simp add: a'_def)
  show "get_entry (snd (invoke W a s)) h' k' =
          (if (h' = H \<and> k' = ident self) \<or> (h' = Hs \<and> k' = iid)
           then Some \<lparr>locked = False,
                      last_success = (if isl (fst (invoke W a s)) then last_success_of s h' k'
                                      else Some (now (snd (invoke W a s))))\<rparr>
           else get_entry s h' k')"
    unfolding o(4) r(4) Let_def unfolding o(1) [symmetric] o(2) [symmetric] r(1) [symmetric] r(2) [symmetric]
    using ne
    by (auto simp add: s3_def sec_def get_entry_acquired last_success_entry_or_new last_success_of_def)
  show "throttle_attr (snd (invoke W a s)) h' = throttle_attr s h'" if "h' \<noteq> H" "h' \<noteq> Hs"
    using that by (simp add: o(5) r(5)) (simp add: s3_def throttle_attr_acquired_other)
qed

lemma limited_blocked:
  fixes b :: "('x, 'v) body"
  assumes M: "M = def_callable slf qn is_async b"
    and W: "W = Throttle_call self iid iwid wid M"
    and H: "H = primary_host self iid iwid wid M a"
    and Hs: "Hs = secondary_host iwid M a"
    and lim: "limit_no_throttle self = Some l"
    and ne: "iid \<noteq> ident self"
    and p: "passes s H (ident self) (min_time self) (no_throttle a)"
    and ps: "\<not> passes s Hs iid l False"
  shows "fst (invoke W a s) = Inr (throttled_value is_async)"
    and "now (snd (invoke W a s)) = now s"
    and "executed (snd (invoke W a s)) = executed s"
    and "get_entry (snd (invoke W a s)) h' k' =
          (if h' = H \<and> k' = ident self then Some \<lparr>locked = False, last_success = Some (now s)\<rparr>
           else get_entry s h' k')"
    and "h' \<noteq> H \<Longrightarrow> throttle_attr (snd (invoke W a s)) h' = throttle_attr s h'"
proof -
  define sec where "sec = \<lparr>ident = iid, min_time = l, limit_no_throttle = None\<rparr>"
  define I where "I = make_wrapper sec is_async iwid M"
  define a' where "a' = a\<lparr>no_throttle := False\<rparr>"
  define s3 where "s3 = acquired H (ident self) s"
  note li = limited_inner [OF M W H Hs lim I_def [unfolded sec_def], folded sec_def]
  have p': "passes s (resolve_host I wid a) (ident self) (min_time self) (no_throttle a)"
    using p li(2) by simp
  note o = wrapper_passes_obs [where is_async = is_async, OF p', folded li(1) li(2) a'_def s3_def, unfolded li(3)]
  have ps3: "\<not> passes s3 (resolve_host M iwid a') (ident sec) (min_time sec) (no_throttle a')"
    using ps ne by (simp add: a'_def s3_def sec_def passes_acquired_other li(4) [symmetric])
  have r: "wrapper sec is_async iwid M a' s3 = (Inr (throttled_value is_async), s3)"
    using ps3 by (rule wrapper_blocked)
  show "fst (invoke W a s) = Inr (throttled_value is_async)"
    by (simp add: o(1) r)
  show "now (snd (invoke W a s)) = now s"
    by (simp add: o(2) r) (simp add: s3_def)
  show "executed (snd (invoke W a s)) = executed s"
    by (simp add: o(3) r) (simp add: s3_def)
  show "get_entry (snd (invoke W a s)) h' k' =
          (if h' = H \<and> k' = ident self then Some \<lparr>locked = False, last_success = Some (now s)\<rparr>
           else get_entry s h' k')"
    unfolding o(4) r Let_def by (simp add: s3_def get_entry_acquired)
  show "throttle_attr (snd (invoke W a s)) h' = throttle_attr s h'" if "h' \<noteq> H"
    using that by (simp add: o(5) r) (simp add: s3_def throttle_attr_acquired_other)
qed

lemma admitted_run:
  fixes b :: "('x, 'v) body"
  assumes M: "M = def_callable slf qn is_async b"
    and W: "W = Throttle_call self iid iwid wid M"
    and H: "H = primary_host self iid iwid wid M a"
    and Hs: "Hs = secondary_host iwid M a"
    and ne: "iid \<noteq> ident self"
    and p: "passes s H (ident self) (min_time self) (no_throttle a)"
    and ps: "secondary_passes self s Hs iid"
  shows "runs_delegate M a s (invoke W a s)"
    and "get_entry (snd (invoke W a s)) H (ident self) =
           Some \<lparr>locked = False,
                 last_success = (if isl (fst (invoke W a s)) then last_success_of s H (ident self)
                                 else Some (now (snd (invoke W a s))))\<rparr>"
    and "limit_no_throttle self \<noteq> None \<Longrightarrow>
         get_entry (snd (invoke W a s)) Hs iid =
           Some \<lparr>locked = False,
                 last_success = (if isl (fst (invoke W a s)) then last_success_of s Hs iid
                                 else Some (now (snd (invoke W a s))))\<rparr>"
    and "(h' \<noteq> H \<or> k' \<noteq> ident self) \<Longrightarrow> (limit_no_throttle self = None \<or> h' \<noteq> Hs \<or> k' \<noteq> iid) \<Longrightarrow>
         get_entry (snd (invoke W a s)) h' k' = get_entry s h' k'"
    and "h' \<noteq> H \<Longrightarrow> (limit_no_throttle self = None \<or> h' \<noteq> Hs) \<Longrightarrow>
         throttle_attr (snd (invoke W a s)) h' = throttle_attr s h'"
proof -
  show "runs_delegate M a s (invoke W a s)"
  proof (cases "limit_no_throttle self")
    case None
    show ?thesis by (rule unlimited_run(1) [OF M W H None p])
  next
    case (Some l)
    with ps have "passes s Hs iid l False" by (simp add: secondary_passes_def)
    then show ?thesis by (rule limited_run(1) [OF M W H Hs Some ne p])
  qed
  show "get_entry (snd (invoke W a s)) H (ident self) =
           Some \<lparr>locked = False,
                 last_success = (if isl (fst (invoke W a s)) then last_success_of s H (ident self)
                                 else Some (now (snd (invoke W a s))))\<rparr>"
  proof (cases "limit_no_throttle self")
    case None
    show ?thesis by (simp add: unlimited_run(2) [OF M W H None p])
  next
    case (Some l)
    with ps have "passes s Hs iid l False" by (simp add: secondary_passes_def)
    then show ?thesis by (simp add: limited_run(2) [OF M W H Hs Some ne p])
  qed
  show "get_entry (snd (invoke W a s)) Hs iid =
           Some \<lparr>locked = False,
                 last_success = (if isl (fst (invoke W a s)) then last_success_of s Hs iid
                                 else Some (now (snd (invoke W a s))))\<rparr>"
    if "limit_no_throttle self \<noteq> None"
  proof -
    from that obtain l where l: "limit_no_throttle self = Some l" by auto
    with ps have "passes s Hs iid l False" by (simp add: secondary_passes_def)
    then show ?thesis by (simp add: limited_run(2) [OF M W H Hs l ne p])
  qed
  show "get_entry (snd (invoke W a s)) h' k' = get_entry s h' k'"
    if "h' \<noteq> H \<or> k' \<noteq> ident self" "limit_no_throttle self = None \<or> h' \<noteq> Hs \<or> k' \<noteq> iid"
  proof (cases "limit_no_throttle self")
    case None
    show ?thesis using that by (auto simp add: unlimited_run(2) [OF M W H None p])
  next
    case (Some l)
    with ps have "passes s Hs iid l False" by (simp add: secondary_passes_def)
    then show ?thesis using that Some by (auto simp add: limited_run(2) [OF M W H Hs Some ne p])
  qed
  show "throttle_attr (snd (invoke W a s)) h' = throttle_attr s h'"
    if "h' \<noteq> H" "limit_no_throttle self = None \<or> h' \<noteq> Hs"
  proof (cases "limit_no_throttle self")
    case None
    show ?thesis using that(1) by (rule unlimited_run(3) [OF M W H None p])
  next
    case (Some l)
    with ps have "passes s Hs iid l False" by (simp add: secondary_passes_def)
    then show ?thesis using that Some by (simp add: limited_run(3) [OF M W H Hs Some ne p])
  qed
qed

lemma rejected_by_secondary:
  fixes b :: "('x, 'v) body"
  assumes M: "M = def_callable slf qn is_async b"
    and W: "W = Throttle_call self iid iwid wid M"
    and H: "H = primary_host self iid iwid wid M a"
    and Hs: "Hs = secondary_host iwid M a"
    and ne: "iid \<noteq> ident self"
    and p: "passes s H (ident self) (min_time self) (no_throttle a)"
    and ps: "\<not> secondary_passes self s Hs iid"
  shows "fst (invoke W a s) = Inr (throttled_value is_async)"
    and "now (snd (invoke W a s)) = now s"
    and "executed (snd (invoke W a s)) = executed s"
    and "get_entry (snd (invoke W a s)) h' k' =
          (if h' = H \<and> k' = ident self then Some \<lparr>locked = False, last_success = Some (now s)\<rparr>
           else get_entry s h' k')"
    and "h' \<noteq> H \<Longrightarrow> throttle_attr (snd (invoke W a s)) h' = throttle_attr s h'"
proof -
  from ps obtain l where l: "limit_no_throttle self = Some l" and n: "\<not> passes s Hs iid l False"
    by (auto simp add: secondary_passes_def split: option.splits)
  note r = limited_blocked [OF M W H Hs l ne p n]
  show "fst (invoke W a s) = Inr (throttled_value is_async)" by (rule r(1))
  show "now (snd (invoke W a s)) = now s" by (rule r(2))
  show "executed (snd (invoke W a s)) = executed s" by (rule r(3))
  show "get_entry (snd (invoke W a s)) h' k' =
          (if h' = H \<and> k' = ident self then Some \<lparr>locked = False, last_success = Some (now s)\<rparr>
           else get_entry s h' k')" by (rule r(4))
  show "h' \<noteq> H \<Longrightarrow> throttle_attr (snd (invoke W a s)) h' = throttle_attr s h'" by (rule r(5))
qed

lemma runs_delegate_admitted:
  fixes b :: "('x, 'v) body"
  assumes M: "M = def_callable slf qn is_async b"
    and W: "W = Throttle_call self iid iwid wid M"
    and H: "H = primary_host self iid iwid wid M a"
    and Hs: "Hs = secondary_host iwid M a"
    and ne: "iid \<noteq> ident self"
    and r: "runs_delegate M a s (invoke W a s)"
  shows "passes s H (ident self) (min_time self) (no_throttle a)"
    and "secondary_passes self s Hs iid"
proof -
  show p: "passes s H (ident self) (min_time self) (no_throttle a)"
  proof (rule ccontr)
    assume "\<not> ?thesis"
    then have "invoke W a s = (Inr (throttled_value is_async), s)"
      using primary_blocked [of s self iid iwid wid M a] by (simp add: W H M)
    with r show False
      using not_runs_delegate_throttled [of s s slf qn is_async b a] by (simp add: M)
  qed
  show "secondary_passes self s Hs iid"
  proof (rule ccontr)
    assume n: "\<not> ?thesis"
    note j = rejected_by_secondary [OF M W H Hs ne p n]
    have "invoke W a s = (Inr (throttled_value is_async), snd (invoke W a s))"
      using j(1) by (cases "invoke W a s") simp
    with r j(3) show False
      using not_runs_delegate_throttled [of "snd (invoke W a s)" s slf qn is_async b a] by (simp add: M)
  qed
qed


lemma runs_delegate_async:
  fixes b :: "('x, 'v) body"
  assumes "runs_delegate (def_callable slf qn True b) a s out"
  shows "executed (snd out) = executed s"
    and "now (snd out) = now s"
    and "fst out = Inr (Coroutine (MethodBody (positional a)))"
  using assms
  by (auto simp add: runs_delegate_iff def_callable_def)

subsection \<open>The example instances\<close>

lemma demo_hosts [simp]:
  "primary_host self iid iwid wid (def_callable None ''Player.update'' is_async b) (receiver_call obj f) = Object obj"
  "secondary_host iwid (def_callable None ''Player.update'' is_async b) (receiver_call obj f) = Object obj"
  by (simp_all add: primary_host_def secondary_host_def rebound_method_def resolve_host_def is_func_def
      receiver_call_def split: option.splits)

lemmas eval_defs = Throttle_call_def rebound_method_def make_wrapper_def wrapper_def resolve_host_def
  is_func_def lookup_or_create_def upd_entry_def get_entry_def def_callable_def run_body_def
  throttled_value_def receiver_call_def fresh_def plain_throttle_def limited_throttle_def
  demo_body_def failing_body_def Let_def last_success_of_def lock_held_def

lemma demo_plain_first:
  "invoke (Throttle_call plain_throttle 2 3 4 (def_callable None ''Player.update'' False demo_body))
     (receiver_call 5 f) fresh =
   (Inr (Value (Some 7)),
    \<lparr>now = 3,
     throttle_attr = (\<lambda>_. None)(Object 5 := Some ((\<lambda>_. None)(1 := Some \<lparr>locked = False, last_success = Some 3\<rparr>))),
     executed = 1\<rparr>)"
  by (simp add: eval_defs)

lemma demo_limited_first:
  "invoke (Throttle_call limited_throttle 2 3 4 (def_callable None ''Player.update'' False demo_body))
     (receiver_call 5 f) fresh =
   (Inr (Value (Some 7)),
    \<lparr>now = 3,
     throttle_attr = (\<lambda>_. None)(Object 5 := Some ((\<lambda>_. None)
        (2 := Some \<lparr>locked = False, last_success = Some 3\<rparr>,
         1 := Some \<lparr>locked = False, last_success = Some 3\<rparr>))),
     executed = 1\<rparr>)"
  by (simp add: eval_defs)

lemma after_returned_call:
  fixes b :: "('x, 'v) body"
  assumes M: "M = def_callable slf qn is_async b"
    and W: "W = Throttle_call self iid iwid wid M"
    and H: "H = primary_host self iid iwid wid M a"
    and Hs: "Hs = secondary_host iwid M a"
    and ne: "iid \<noteq> ident self"
    and r: "runs_delegate M a s (invoke W a s)"
    and ok: "\<not> isl (fst (invoke W a s))"
  shows "get_entry (snd (invoke W a s)) H (ident self) =
           Some \<lparr>locked = False, last_success = Some (now (snd (invoke W a s)))\<rparr>"
    and "limit_no_throttle self \<noteq> None \<Longrightarrow>
         get_entry (snd (invoke W a s)) Hs iid =
           Some \<lparr>locked = False, last_success = Some (now (snd (invoke W a s)))\<rparr>"
proof -
  note p = runs_delegate_admitted [OF M W H Hs ne r]
  note e = admitted_run(2,3) [OF M W H Hs ne p]
  show "get_entry (snd (invoke W a s)) H (ident self) =
           Some \<lparr>locked = False, last_success = Some (now (snd (invoke W a s)))\<rparr>"
    using e(1) ok by simp
  show "limit_no_throttle self \<noteq> None \<Longrightarrow>
         get_entry (snd (invoke W a s)) Hs iid =
           Some \<lparr>locked = False, last_success = Some (now (snd (invoke W a s)))\<rparr>"
    using e(2) ok by simp
qed

lemma demo_slow_limit_first:
  "invoke (Throttle_call slow_limit_throttle 2 3 4 (def_callable None ''Player.update'' False demo_body))
     (receiver_call 5 f) fresh =
   (Inr (Value (Some 7)),
    \<lparr>now = 3,
     throttle_attr = (\<lambda>_. None)(Object 5 := Some ((\<lambda>_. None)
        (2 := Some \<lparr>locked = False, last_success = Some 3\<rparr>,
         1 := Some \<lparr>locked = False, last_success = Some 3\<rparr>))),
     executed = 1\<rparr>)"
  by (simp add: eval_defs slow_limit_throttle_def)

lemma passes_now_update:
  "passes (s\<lparr>now := t\<rparr>) h k T f =
     (case get_entry s h k of
        None \<Rightarrow> True
      | Some e \<Rightarrow> \<not> locked e \<and> (f \<or> (case last_success e of None \<Rightarrow> True | Some t0 \<Rightarrow> t - t0 > T)))"
  by (simp add: passes_def split: option.splits)

lemma secondary_passes_now_update:
  "secondary_passes self (s\<lparr>now := t\<rparr>) h k =
     (case limit_no_throttle self of
        None \<Rightarrow> True
      | Some l \<Rightarrow>
          (case get_entry s h k of
             None \<Rightarrow> True
           | Some e \<Rightarrow> \<not> locked e \<and> (case last_success e of None \<Rightarrow> True | Some t0 \<Rightarrow> t - t0 > l)))"
  by (simp add: secondary_passes_def passes_now_update split: option.splits)

lemma passes_forced:
  "passes s h k T True = (\<not> lock_held s h k)"
  by (simp add: passes_def lock_held_def split: option.splits)

lemma pair_fst_snd: "fst p = x \<Longrightarrow> p = (x, snd p)"
  by (cases p) simp

lemma demo_failing_first:
  "invoke (Throttle_call plain_throttle 2 3 4 (def_callable None ''Player.update'' False failing_body))
     (receiver_call 5 f) fresh =
   (Inl ''ConnectionError'',
    \<lparr>now = 3,
     throttle_attr = (\<lambda>_. None)(Object 5 := Some ((\<lambda>_. None)(1 := Some \<lparr>locked = False, last_success = None\<rparr>))),
     executed = 1\<rparr>)"
  by (simp add: eval_defs)


lemma now_delegate_state [simp]: "now (delegate_state self iid iwid wid M a s) = now s"
  by (simp add: delegate_state_def Let_def split: option.splits)

lemma lock_held_delegate_state:
  assumes ne: "iid \<noteq> ident self"
  shows "lock_held (delegate_state self iid iwid wid M a s) (primary_host self iid iwid wid M a) (ident self)"
    and "limit_no_throttle self \<noteq> None \<Longrightarrow>
         lock_held (delegate_state self iid iwid wid M a s) (secondary_host iwid M a) iid"
  using ne by (auto simp add: delegate_state_def Let_def lock_held_def get_entry_acquired split: option.splits)

lemma called_in_delegate_state:
  assumes ne: "iid \<noteq> ident self"
    and p: "passes s (primary_host self iid iwid wid method0 a) (ident self) (min_time self) (no_throttle a)"
    and ps: "secondary_passes self s (secondary_host iwid method0 a) iid"
  shows "fst (invoke (Throttle_call self iid iwid wid method0) a s) =
           fst (invoke method0 (a\<lparr>no_throttle := False\<rparr>) (delegate_state self iid iwid wid method0 a s))"
proof (cases "limit_no_throttle self")
  case None
  have H: "primary_host self iid iwid wid method0 a = resolve_host method0 wid a"
    using None by (simp add: primary_host_simps)
  show ?thesis
    using None wrapper_passes_obs(1) [OF p [unfolded H], of "iscoroutinefunction method0"]
    by (simp add: invoke_Throttle_call rebound_method_def delegate_state_def H)
next
  case (Some l)
  define sec where "sec = \<lparr>ident = iid, min_time = l, limit_no_throttle = None\<rparr>"
  define I where "I = make_wrapper sec (iscoroutinefunction method0) iwid method0"
  define s3 where "s3 = acquired (resolve_host I wid a) (ident self) s"
  have H: "primary_host self iid iwid wid method0 a = resolve_host I wid a"
    using Some by (simp add: primary_host_simps I_def sec_def)
  have ps3: "passes s3 (resolve_host method0 iwid (a\<lparr>no_throttle := False\<rparr>)) (ident sec) (min_time sec)
      (no_throttle (a\<lparr>no_throttle := False\<rparr>))"
    using ps ne Some
    by (simp add: s3_def sec_def passes_acquired_other secondary_passes_def secondary_host_def)
  have "fst (invoke (Throttle_call self iid iwid wid method0) a s) =
        fst (invoke I (a\<lparr>no_throttle := False\<rparr>) s3)"
    using Some wrapper_passes_obs(1) [OF p [unfolded H], of "iscoroutinefunction method0"]
    by (simp add: invoke_Throttle_call rebound_method_def I_def sec_def s3_def)
  also have "\<dots> = fst (invoke method0 (a\<lparr>no_throttle := False\<rparr>)
      (acquired (resolve_host method0 iwid (a\<lparr>no_throttle := False\<rparr>)) (ident sec) s3))"
    using wrapper_passes_obs(1) [OF ps3, of "iscoroutinefunction method0"] by (simp add: I_def)
  also have "acquired (resolve_host method0 iwid (a\<lparr>no_throttle := False\<rparr>)) (ident sec) s3 =
      delegate_state self iid iwid wid method0 a s"
    using Some by (simp add: delegate_state_def s3_def H secondary_host_def sec_def)
  finally show ?thesis .
qed

lemma raised_final_state:
  fixes b :: "('x, 'v) body"
  assumes M: "M = def_callable slf qn is_async b"
    and W: "W = Throttle_call self iid iwid wid M"
    and H: "H = primary_host self iid iwid wid M a"
    and Hs: "Hs = secondary_host iwid M a"
    and ne: "iid \<noteq> ident self"
    and p: "passes s H (ident self) (min_time self) (no_throttle a)"
    and ps: "secondary_passes self s Hs iid"
    and r: "fst (invoke M (a\<lparr>no_throttle := False\<rparr>) (delegate_state self iid iwid wid M a s)) = Inl x"
  shows "invoke W a s =
           (Inl x, released self iid iwid wid M a
                     (snd (invoke M (a\<lparr>no_throttle := False\<rparr>) (delegate_state self iid iwid wid M a s))))"
proof (cases "limit_no_throttle self")
  case None
  have H': "H = resolve_host M wid a" using H None by (simp add: primary_host_simps)
  have i: "invoke W a s = wrapper self is_async wid M a s"
    using None by (simp add: W invoke_Throttle_call rebound_method_def M)
  have ds: "delegate_state self iid iwid wid M a s = acquired (resolve_host M wid a) (ident self) s"
    using None H H' by (simp add: delegate_state_def)
  obtain s5 where o: "invoke M (a\<lparr>no_throttle := False\<rparr>) (acquired (resolve_host M wid a) (ident self) s) = (Inl x, s5)"
    using r unfolding ds by (cases "invoke M (a\<lparr>no_throttle := False\<rparr>) (acquired (resolve_host M wid a) (ident self) s)") simp
  show ?thesis
    unfolding i wrapper_passes [OF p [unfolded H'], of is_async] ds o
    using None H H' by (simp add: released_def)
next
  case (Some l)
  define sec where "sec = \<lparr>ident = iid, min_time = l, limit_no_throttle = None\<rparr>"
  define I where "I = make_wrapper sec is_async iwid M"
  define s3 where "s3 = acquired H (ident self) s"
  define ds where "ds = acquired Hs iid s3"
  note li = limited_inner [OF M W H Hs Some I_def [unfolded sec_def], folded sec_def]
  have p': "passes s (resolve_host I wid a) (ident self) (min_time self) (no_throttle a)"
    using p li(2) by simp
  have ps3: "passes s3 (resolve_host M iwid (a\<lparr>no_throttle := False\<rparr>)) (ident sec) (min_time sec)
      (no_throttle (a\<lparr>no_throttle := False\<rparr>))"
    using ps ne Some
    by (simp add: s3_def sec_def passes_acquired_other li(4) [symmetric] secondary_passes_def)
  have dseq: "delegate_state self iid iwid wid M a s = ds"
    using Some by (simp add: delegate_state_def ds_def s3_def H Hs)
  obtain s5 where o: "invoke M (a\<lparr>no_throttle := False\<rparr>) ds = (Inl x, s5)"
    using r unfolding dseq by (cases "invoke M (a\<lparr>no_throttle := False\<rparr>) ds") auto
  have inner: "wrapper sec is_async iwid M (a\<lparr>no_throttle := False\<rparr>) s3 =
      (Inl x, upd_entry Hs iid (\<lambda>e. e\<lparr>locked := False\<rparr>) s5)"
    unfolding wrapper_passes [OF ps3, of is_async]
    using o by (simp add: li(4) [symmetric] sec_def ds_def)
  have "invoke W a s = (Inl x, upd_entry H (ident self) (\<lambda>e. e\<lparr>locked := False\<rparr>)
      (upd_entry Hs iid (\<lambda>e. e\<lparr>locked := False\<rparr>) s5))"
    unfolding li(1) wrapper_passes [OF p', of is_async]
    using inner by (simp add: li(3) s3_def li(2) [symmetric])
  then show ?thesis
    unfolding dseq o using Some by (simp add: released_def H [symmetric] Hs [symmetric])
qed

lemma demo_async_failing_first:
  "invoke (Throttle_call plain_throttle 2 3 4 (def_callable None ''Player.update'' True failing_body))
     (receiver_call 5 f) fresh =
   (Inr (Coroutine (MethodBody [5])),
    \<lparr>now = 0,
     throttle_attr = (\<lambda>_. None)(Object 5 := Some ((\<lambda>_. None)(1 := Some \<lparr>locked = False, last_success = Some 0\<rparr>))),
     executed = 0\<rparr>)"
  by (simp add: eval_defs)

lemma get_entry_await [simp]: "get_entry (snd (await b c s)) h k = get_entry s h k"
  by (simp add: await_def run_body_def get_entry_def split: coroutine.splits prod.splits)

lemma fst_await_method: "fst (await b (MethodBody ps) s) = fst (b ps (now s))"
  by (simp add: await_def run_body_def split: prod.splits)

subsection \<open>Attribute lookup\<close>

lemma wrapper_as_wrapper_at:
  "wrapper self is_async wid method a s = wrapper_at (resolve_host method wid a) self is_async method a s"
  by (simp add: wrapper_def wrapper_at_def Let_def)

lemma dict_owner_no_path [simp]: "dict_owner (\<lambda>_. []) s h = h"
  by (simp add: dict_owner_def)

lemma wrapper_via_no_path: "wrapper_via (\<lambda>_. []) self is_async wid method = wrapper self is_async wid method"
  by (rule ext, rule ext) (simp add: wrapper_via_def wrapper_as_wrapper_at)

lemma Throttle_call_via_no_path:
  "Throttle_call_via (\<lambda>_. []) self iid iwid wid M = Throttle_call self iid iwid wid M"
  by (simp add: Throttle_call_via_def Throttle_call_def rebound_method_via_def rebound_method_def
      make_wrapper_via_def make_wrapper_def wrapper_via_no_path Let_def split: option.splits)

lemma find_Some_member: "List.find P xs = Some c \<Longrightarrow> c \<in> set xs \<and> P c"
  by (induction xs) (auto split: if_splits)

lemma dict_owner_in_reach: "dict_owner via s h \<in> reach via s h"
proof (cases "List.find (\<lambda>c. throttle_attr s c \<noteq> None) (h # via h)")
  case None
  then show ?thesis by (simp add: dict_owner_def reach_def)
next
  case (Some c)
  from find_Some_member [OF this] have "c \<in> set (h # via h)" "throttle_attr s c \<noteq> None"
    by blast+
  with Some show ?thesis by (simp add: dict_owner_def reach_def)
qed

lemma reach_subset_path: "reach via s h \<subseteq> set (h # via h)"
  by (auto simp add: reach_def)

lemma dict_owner_agree:
  assumes "agree P s u" "set (h # via h) \<subseteq> P"
  shows "dict_owner via s h = dict_owner via u h"
proof -
  have "List.find (\<lambda>c. throttle_attr s c \<noteq> None) (h # via h) =
        List.find (\<lambda>c. throttle_attr u c \<noteq> None) (h # via h)"
    using assms by (intro find_cong) (auto simp add: agree_def)
  then show ?thesis by (simp add: dict_owner_def)
qed

lemma agree_lookup:
  assumes "agree P s u" "c \<in> P"
  shows "fst (lookup_or_create c k s) = fst (lookup_or_create c k u)"
    and "agree P (snd (lookup_or_create c k s)) (snd (lookup_or_create c k u))"
proof -
  have e: "throttle_attr s c = throttle_attr u c" "now s = now u"
    using assms by (auto simp add: agree_def)
  show "fst (lookup_or_create c k s) = fst (lookup_or_create c k u)"
    using e by (auto simp add: lookup_or_create_def Let_def split: option.splits)
  show "agree P (snd (lookup_or_create c k s)) (snd (lookup_or_create c k u))"
    using assms e by (auto simp add: lookup_or_create_def Let_def agree_def split: option.splits)
qed

lemma agree_upd_entry:
  assumes "agree P s u" "c \<in> P"
  shows "agree P (upd_entry c k f s) (upd_entry c k f u)"
proof -
  have e: "throttle_attr s c = throttle_attr u c"
    using assms by (auto simp add: agree_def)
  show ?thesis
    using assms e by (auto simp add: upd_entry_def agree_def split: option.splits)
qed

lemma agree_now: "agree P s u \<Longrightarrow> now s = now u"
  by (simp add: agree_def)

lemma wrapper_at_agree:
  assumes a: "agree P s u" and c: "c \<in> P"
    and m: "\<And>s u. agree P s u \<Longrightarrow>
              fst (invoke method (a\<lparr>no_throttle := False\<rparr>) s) = fst (invoke method (a\<lparr>no_throttle := False\<rparr>) u) \<and>
              agree P (snd (invoke method (a\<lparr>no_throttle := False\<rparr>) s))
                      (snd (invoke method (a\<lparr>no_throttle := False\<rparr>) u))"
  shows "fst (wrapper_at c self is_async method a s) = fst (wrapper_at c self is_async method a u) \<and>
         agree P (snd (wrapper_at c self is_async method a s)) (snd (wrapper_at c self is_async method a u))"
proof -
  obtain e s2 where ls: "lookup_or_create c (ident self) s = (e, s2)"
    by (cases "lookup_or_create c (ident self) s")
  obtain e' u2 where lu: "lookup_or_create c (ident self) u = (e', u2)"
    by (cases "lookup_or_create c (ident self) u")
  from agree_lookup [OF a c, of "ident self"] ls lu have ee: "e' = e" and a2: "agree P s2 u2"
    by simp_all
  define s3 where "s3 = upd_entry c (ident self) (\<lambda>e. e\<lparr>locked := True\<rparr>) s2"
  define u3 where "u3 = upd_entry c (ident self) (\<lambda>e. e\<lparr>locked := True\<rparr>) u2"
  have a3: "agree P s3 u3" unfolding s3_def u3_def by (rule agree_upd_entry [OF a2 c])
  have n3: "now s3 = now u3" using a3 by (rule agree_now)
  obtain r s4 where ms: "invoke method (a\<lparr>no_throttle := False\<rparr>) s3 = (r, s4)"
    by (cases "invoke method (a\<lparr>no_throttle := False\<rparr>) s3")
  obtain r' u4 where mu: "invoke method (a\<lparr>no_throttle := False\<rparr>) u3 = (r', u4)"
    by (cases "invoke method (a\<lparr>no_throttle := False\<rparr>) u3")
  from m [OF a3] ms mu have rr: "r' = r" and a4: "agree P s4 u4" by simp_all
  have n4: "now s4 = now u4" using a4 by (rule agree_now)
  have rel: "agree P (upd_entry c (ident self) (\<lambda>e. e\<lparr>locked := False\<rparr>) s3)
                     (upd_entry c (ident self) (\<lambda>e. e\<lparr>locked := False\<rparr>) u3)"
    by (rule agree_upd_entry [OF a3 c])
  have rel4: "agree P (upd_entry c (ident self) (\<lambda>e. e\<lparr>locked := False\<rparr>) s4)
                     (upd_entry c (ident self) (\<lambda>e. e\<lparr>locked := False\<rparr>) u4)"
    by (rule agree_upd_entry [OF a4 c])
  have rel5: "agree P (upd_entry c (ident self) (\<lambda>e. e\<lparr>locked := False\<rparr>)
                        (upd_entry c (ident self) (\<lambda>e. e\<lparr>last_success := Some (now u4)\<rparr>) s4))
                     (upd_entry c (ident self) (\<lambda>e. e\<lparr>locked := False\<rparr>)
                        (upd_entry c (ident self) (\<lambda>e. e\<lparr>last_success := Some (now u4)\<rparr>) u4))"
    by (rule agree_upd_entry [OF agree_upd_entry [OF a4 c] c])
  show ?thesis
    unfolding wrapper_at_def ls lu ee
    using a2 rel rel4 rel5 n3 n4
    by (cases r) (simp_all add: Let_def s3_def [symmetric] u3_def [symmetric] ms mu rr split: option.splits)
qed

lemma wrapper_via_agree:
  assumes a: "agree P s u" and p: "set (resolve_host method wid a # via (resolve_host method wid a)) \<subseteq> P"
    and m: "\<And>s u. agree P s u \<Longrightarrow>
              fst (invoke method (a\<lparr>no_throttle := False\<rparr>) s) = fst (invoke method (a\<lparr>no_throttle := False\<rparr>) u) \<and>
              agree P (snd (invoke method (a\<lparr>no_throttle := False\<rparr>) s))
                      (snd (invoke method (a\<lparr>no_throttle := False\<rparr>) u))"
  shows "fst (wrapper_via via self is_async wid method a s) = fst (wrapper_via via self is_async wid method a u) \<and>
         agree P (snd (wrapper_via via self is_async wid method a s))
                 (snd (wrapper_via via self is_async wid method a u))"
proof -
  have o: "dict_owner via s (resolve_host method wid a) = dict_owner via u (resolve_host method wid a)"
    by (rule dict_owner_agree [where via = via, OF a p])
  have c: "dict_owner via u (resolve_host method wid a) \<in> P"
    using dict_owner_in_reach [of via u "resolve_host method wid a"]
      reach_subset_path [of via u "resolve_host method wid a"] p by blast
  show ?thesis
    unfolding wrapper_via_def Let_def o
    by (rule wrapper_at_agree [OF a c m])
qed

lemma def_callable_agree:
  assumes "agree P s u"
  shows "fst (invoke (def_callable slf qn is_async b) a s) = fst (invoke (def_callable slf qn is_async b) a u) \<and>
         agree P (snd (invoke (def_callable slf qn is_async b) a s))
                 (snd (invoke (def_callable slf qn is_async b) a u))"
  using assms
  by (auto simp add: def_callable_def run_body_def agree_def split: prod.splits sum.splits)

lemma wrapper_at_frame:
  assumes h: "h \<noteq> c"
    and m: "\<And>s'. throttle_attr s' h = throttle_attr s h \<Longrightarrow>
              throttle_attr (snd (invoke method (a\<lparr>no_throttle := False\<rparr>) s')) h = throttle_attr s' h"
  shows "throttle_attr (snd (wrapper_at c self is_async method a s)) h = throttle_attr s h"
proof -
  obtain e s2 where ls: "lookup_or_create c (ident self) s = (e, s2)"
    by (cases "lookup_or_create c (ident self) s")
  have t2: "throttle_attr s2 h = throttle_attr s h"
    using throttle_attr_lookup_other [OF h, of "ident self" s] ls by simp
  define s3 where "s3 = upd_entry c (ident self) (\<lambda>e. e\<lparr>locked := True\<rparr>) s2"
  have t3: "throttle_attr s3 h = throttle_attr s h"
    using t2 h by (simp add: s3_def throttle_attr_upd_entry_other)
  obtain r s4 where ms: "invoke method (a\<lparr>no_throttle := False\<rparr>) s3 = (r, s4)"
    by (cases "invoke method (a\<lparr>no_throttle := False\<rparr>) s3")
  have t4: "throttle_attr s4 h = throttle_attr s h"
    using m [OF t3] ms t3 by simp
  show ?thesis
    unfolding wrapper_at_def ls
    using t2 t3 t4 h
    by (cases r)
       (simp_all add: Let_def s3_def [symmetric] ms throttle_attr_upd_entry_other split: option.splits)
qed

lemma not_reach_cong:
  "throttle_attr s' h = throttle_attr s h \<Longrightarrow> h \<notin> reach via s x \<Longrightarrow> h \<notin> reach via s' x"
  by (auto simp add: reach_def)

lemma wrapper_via_frame:
  assumes h: "h \<notin> reach via s (resolve_host method wid a)"
    and m: "\<And>s'. throttle_attr s' h = throttle_attr s h \<Longrightarrow>
              throttle_attr (snd (invoke method (a\<lparr>no_throttle := False\<rparr>) s')) h = throttle_attr s' h"
  shows "throttle_attr (snd (wrapper_via via self is_async wid method a s)) h = throttle_attr s h"
proof -
  have "h \<noteq> dict_owner via s (resolve_host method wid a)"
    using h dict_owner_in_reach [of via s "resolve_host method wid a"] by auto
  then show ?thesis
    unfolding wrapper_via_def Let_def by (rule wrapper_at_frame) (rule m)
qed

lemma resolve_host_cong:
  "self_attr m = self_attr m' \<Longrightarrow> qualname m = qualname m' \<Longrightarrow> resolve_host m wid a = resolve_host m' wid a"
  by (simp add: resolve_host_def is_func_def)

lemma make_wrapper_via_sel [simp]:
  "self_attr (make_wrapper_via via self is_async wid method) = None"
  "qualname (make_wrapper_via via self is_async wid method) = qualname method"
  "invoke (make_wrapper_via via self is_async wid method) = wrapper_via via self is_async wid method"
  by (simp_all add: make_wrapper_via_def)

lemma primary_host_via:
  "resolve_host (rebound_method_via via self iid iwid M) wid a = primary_host self iid iwid wid M a"
  unfolding primary_host_def
  by (rule resolve_host_cong)
     (simp_all add: rebound_method_via_def rebound_method_def split: option.splits)

lemma Throttle_call_via_agree:
  fixes b :: "('x, 'v) body"
  assumes M: "M = def_callable slf qn is_async b"
    and a: "agree P s u"
    and p: "set (primary_host self iid iwid wid M a # via (primary_host self iid iwid wid M a)) \<subseteq> P"
    and ps: "set (secondary_host iwid M a # via (secondary_host iwid M a)) \<subseteq> P"
  shows "fst (invoke (Throttle_call_via via self iid iwid wid M) a s) =
           fst (invoke (Throttle_call_via via self iid iwid wid M) a u) \<and>
         agree P (snd (invoke (Throttle_call_via via self iid iwid wid M) a s))
                 (snd (invoke (Throttle_call_via via self iid iwid wid M) a u))"
proof -
  let ?R = "rebound_method_via via self iid iwid M"
  have inner: "fst (invoke ?R (a\<lparr>no_throttle := False\<rparr>) s') = fst (invoke ?R (a\<lparr>no_throttle := False\<rparr>) u') \<and>
        agree P (snd (invoke ?R (a\<lparr>no_throttle := False\<rparr>) s')) (snd (invoke ?R (a\<lparr>no_throttle := False\<rparr>) u'))"
    if a': "agree P s' u'" for s' u'
  proof (cases "limit_no_throttle self")
    case None
    then show ?thesis using def_callable_agree [OF a'] by (simp add: rebound_method_via_def M)
  next
    case (Some l)
    have ps': "set (resolve_host M iwid (a\<lparr>no_throttle := False\<rparr>) #
                 via (resolve_host M iwid (a\<lparr>no_throttle := False\<rparr>))) \<subseteq> P"
      using ps by (simp add: secondary_host_def)
    show ?thesis
      using Some
      by (simp add: rebound_method_via_def)
         (rule wrapper_via_agree [where via = via, OF a' ps'], simp add: M def_callable_agree)
  qed
  have p': "set (resolve_host ?R wid a # via (resolve_host ?R wid a)) \<subseteq> P"
    using p by (simp add: primary_host_via)
  show ?thesis
    by (simp add: Throttle_call_via_def Let_def)
       (rule wrapper_via_agree [where via = via, OF a p'], rule inner)
qed

lemma Throttle_call_via_frame:
  fixes b :: "('x, 'v) body"
  assumes M: "M = def_callable slf qn is_async b"
    and h: "h \<notin> reach via s (primary_host self iid iwid wid M a)"
    and hs: "h \<notin> reach via s (secondary_host iwid M a)"
  shows "throttle_attr (snd (invoke (Throttle_call_via via self iid iwid wid M) a s)) h = throttle_attr s h"
proof -
  let ?R = "rebound_method_via via self iid iwid M"
  have inner: "throttle_attr (snd (invoke ?R (a\<lparr>no_throttle := False\<rparr>) s')) h = throttle_attr s' h"
    if e: "throttle_attr s' h = throttle_attr s h" for s'
  proof (cases "limit_no_throttle self")
    case None
    then show ?thesis by (simp add: rebound_method_via_def M)
  next
    case (Some l)
    have hs': "h \<notin> reach via s' (resolve_host M iwid (a\<lparr>no_throttle := False\<rparr>))"
      using not_reach_cong [OF e hs] by (simp add: secondary_host_def)
    show ?thesis
      using Some
      by (simp add: rebound_method_via_def)
         (rule wrapper_via_frame [OF hs'], simp add: M)
  qed
  have h': "h \<notin> reach via s (resolve_host ?R wid a)"
    using h by (simp add: primary_host_via)
  show ?thesis
    by (simp add: Throttle_call_via_def Let_def)
       (rule wrapper_via_frame [OF h'], rule inner)
qed

lemmas eval_via_defs = Throttle_call_via_def rebound_method_via_def make_wrapper_via_def wrapper_via_def
  wrapper_at_def dict_owner_def get_entry_via_def same_class_def shallow_copy_def class_dict_def

lemma demo_shallow_copy_first:
  "invoke (Throttle_call_via shallow_copy plain_throttle 2 3 4 (def_callable None ''Player.update'' False demo_body))
     (receiver_call 5 f) fresh =
   (Inr (Value (Some 7)),
    \<lparr>now = 3,
     throttle_attr = (\<lambda>_. None)(Object 5 := Some ((\<lambda>_. None)(1 := Some \<lparr>locked = False, last_success = Some 3\<rparr>))),
     executed = 1\<rparr>)"
  by (simp add: eval_via_defs eval_defs)

lemma demo_class_dict_first:
  "invoke (Throttle_call_via same_class plain_throttle 2 3 4 (def_callable None ''Player.update'' False demo_body))
     (receiver_call 5 f) class_dict =
   (Inr (Value (Some 7)),
    \<lparr>now = 3,
     throttle_attr = (\<lambda>_. None)(Object 9 := Some ((\<lambda>_. None)(1 := Some \<lparr>locked = False, last_success = Some 3\<rparr>))),
     executed = 1\<rparr>)"
  by (simp add: eval_via_defs eval_defs)

lemma demo_same_class_first:
  "invoke (Throttle_call_via same_class plain_throttle 2 3 4 (def_callable None ''Player.update'' False demo_body))
     (receiver_call 5 f) fresh =
   (Inr (Value (Some 7)),
    \<lparr>now = 3,
     throttle_attr = (\<lambda>_. None)(Object 5 := Some ((\<lambda>_. None)(1 := Some \<lparr>locked = False, last_success = Some 3\<rparr>))),
     executed = 1\<rparr>)"
  by (simp add: eval_via_defs eval_defs)

section \<open>The properties\<close>

text \<open>In every statement \<open>M\<close> is the decorated callable, a synchronous or an asynchronous
  function with an arbitrary body, and \<open>W\<close> is \<^verbatim>\<open>Throttle(min_time, limit_no_throttle)(M)\<close>.
  The hypothesis \<open>iid \<noteq> ident self\<close> says that the nested \<^verbatim>\<open>Throttle\<close> object is another object
  than \<^verbatim>\<open>self\<close> (both are alive, so their \<^verbatim>\<open>id\<close>s differ).\<close>







text \<open>Claim C2, as the code has it.  Line 88 compares with \<^verbatim>\<open>>\<close>: two calls without
  \<^verbatim>\<open>no_throttle\<close> on the same entity, of which the first is admitted and returns and the
  second begins more than \<^verbatim>\<open>min_time\<close> (and, where \<^verbatim>\<open>limit_no_throttle\<close> is set, more than that
  limit) after the first has returned, both execute the decorated callable and return
  what it returns.\<close>

theorem calls_spaced_beyond_interval_execute:
  fixes b :: "('x, 'v) body" and slf qn is_async self iid iwid wid a1 s0
  defines "M \<equiv> def_callable slf qn is_async b"
  defines "W \<equiv> Throttle_call self iid iwid wid M"
  defines "s1 \<equiv> snd (invoke W a1 s0)"
  assumes ne: "iid \<noteq> ident self"
    and nf1: "\<not> no_throttle a1"
    and nf2: "\<not> no_throttle a2"
    and adm: "passes s0 (primary_host self iid iwid wid M a1) (ident self) (min_time self) False"
    and sadm: "secondary_passes self s0 (secondary_host iwid M a1) iid"
    and returned: "\<not> isl (fst (invoke W a1 s0))"
    and same: "primary_host self iid iwid wid M a2 = primary_host self iid iwid wid M a1"
    and ssame: "secondary_host iwid M a2 = secondary_host iwid M a1"
    and gap: "t2 - now s1 > min_time self"
    and sgap: "case limit_no_throttle self of None \<Rightarrow> True | Some l \<Rightarrow> t2 - now s1 > l"
  shows "runs_delegate M a1 s0 (invoke W a1 s0) \<and>
         runs_delegate M a2 (s1\<lparr>now := t2\<rparr>) (invoke W a2 (s1\<lparr>now := t2\<rparr>))"
proof -
  note Meq = M_def [THEN meta_eq_to_obj_eq] and Weq = W_def [THEN meta_eq_to_obj_eq]
  have p1: "passes s0 (primary_host self iid iwid wid M a1) (ident self) (min_time self) (no_throttle a1)"
    using adm nf1 by simp
  have r1: "runs_delegate M a1 s0 (invoke W a1 s0)"
    by (rule admitted_run(1) [OF Meq Weq refl refl ne p1 sadm])
  note e = after_returned_call [OF Meq Weq refl refl ne r1 returned, folded s1_def]
  have p2: "passes (s1\<lparr>now := t2\<rparr>) (primary_host self iid iwid wid M a2) (ident self) (min_time self)
      (no_throttle a2)"
    using e(1) gap by (simp add: passes_now_update same)
  have s2: "secondary_passes self (s1\<lparr>now := t2\<rparr>) (secondary_host iwid M a2) iid"
    using e(2) sgap by (auto simp add: secondary_passes_now_update ssame split: option.splits)
  have "runs_delegate M a2 (s1\<lparr>now := t2\<rparr>) (invoke W a2 (s1\<lparr>now := t2\<rparr>))"
    by (rule admitted_run(1) [OF Meq Weq refl refl ne p2 s2])
  with r1 show ?thesis by simp
qed

theorem calls_spaced_beyond_interval_execute_witness:
  "2 \<noteq> ident plain_throttle \<and>
   \<not> no_throttle (receiver_call 5 False) \<and>
   passes fresh
     (primary_host plain_throttle 2 3 4 (def_callable None ''Player.update'' False demo_body) (receiver_call 5 False))
     (ident plain_throttle) (min_time plain_throttle) False \<and>
   secondary_passes plain_throttle fresh
     (secondary_host 3 (def_callable None ''Player.update'' False demo_body) (receiver_call 5 False)) 2 \<and>
   \<not> isl (fst (invoke (Throttle_call plain_throttle 2 3 4 (def_callable None ''Player.update'' False demo_body))
        (receiver_call 5 False) fresh)) \<and>
   14 - now (snd (invoke (Throttle_call plain_throttle 2 3 4 (def_callable None ''Player.update'' False demo_body))
        (receiver_call 5 False) fresh)) > min_time plain_throttle \<and>
   (case limit_no_throttle plain_throttle of None \<Rightarrow> True
    | Some l \<Rightarrow> 14 - now (snd (invoke (Throttle_call plain_throttle 2 3 4
        (def_callable None ''Player.update'' False demo_body)) (receiver_call 5 False) fresh)) > l) \<and>
   runs_delegate (def_callable None ''Player.update'' False demo_body) (receiver_call 5 False) fresh
     (invoke (Throttle_call plain_throttle 2 3 4 (def_callable None ''Player.update'' False demo_body))
        (receiver_call 5 False) fresh) \<and>
   runs_delegate (def_callable None ''Player.update'' False demo_body) (receiver_call 5 False)
     ((snd (invoke (Throttle_call plain_throttle 2 3 4 (def_callable None ''Player.update'' False demo_body))
        (receiver_call 5 False) fresh))\<lparr>now := 14\<rparr>)
     (invoke (Throttle_call plain_throttle 2 3 4 (def_callable None ''Player.update'' False demo_body))
        (receiver_call 5 False)
        ((snd (invoke (Throttle_call plain_throttle 2 3 4 (def_callable None ''Player.update'' False demo_body))
           (receiver_call 5 False) fresh))\<lparr>now := 14\<rparr>)) \<and>
   fst (invoke (Throttle_call plain_throttle 2 3 4 (def_callable None ''Player.update'' False demo_body))
        (receiver_call 5 False)
        ((snd (invoke (Throttle_call plain_throttle 2 3 4 (def_callable None ''Player.update'' False demo_body))
           (receiver_call 5 False) fresh))\<lparr>now := 14\<rparr>)) = Inr (Value (Some 7))"
proof -
  let ?M = "def_callable None ''Player.update'' False demo_body :: (string, nat) callable"
  let ?W = "Throttle_call plain_throttle 2 3 4 ?M"
  let ?a = "receiver_call 5 False"
  have ne: "2 \<noteq> ident plain_throttle" by (simp add: plain_throttle_def)
  have nf: "\<not> no_throttle ?a" by (simp add: receiver_call_def)
  have adm: "passes fresh (primary_host plain_throttle 2 3 4 ?M ?a) (ident plain_throttle)
      (min_time plain_throttle) False"
    by (simp add: passes_def get_entry_def fresh_def)
  have sadm: "secondary_passes plain_throttle fresh (secondary_host 3 ?M ?a) 2"
    by (simp add: secondary_passes_def plain_throttle_def)
  have ret: "\<not> isl (fst (invoke ?W ?a fresh))" by (simp add: demo_plain_first)
  have gap: "14 - now (snd (invoke ?W ?a fresh)) > min_time plain_throttle"
    by (simp add: demo_plain_first) (simp add: plain_throttle_def)
  have sgap: "case limit_no_throttle plain_throttle of None \<Rightarrow> True
    | Some l \<Rightarrow> 14 - now (snd (invoke ?W ?a fresh)) > l"
    by (simp add: plain_throttle_def)
  have val: "fst (invoke ?W ?a ((snd (invoke ?W ?a fresh))\<lparr>now := 14\<rparr>)) = Inr (Value (Some 7))"
    by (simp add: demo_plain_first) (simp add: eval_defs)
  from calls_spaced_beyond_interval_execute [OF ne nf nf adm sadm ret refl refl gap sgap]
    ne nf adm sadm ret gap sgap val
  show ?thesis by simp
qed

text \<open>Claim C2 as stated fails.  With \<^verbatim>\<open>min_time\<close> 10, a first call at time 0 returns 7 at
  time 3; a second call at time 13, exactly \<^verbatim>\<open>min_time\<close> after the first returned, returns
  \<^verbatim>\<open>None\<close> and leaves the state as it was.  And with \<^verbatim>\<open>min_time\<close> 10 and \<^verbatim>\<open>limit_no_throttle\<close> 50
  a second call at time 33 returns \<^verbatim>\<open>None\<close> without a second run of the method: the nested
  throttle holds it back.\<close>

theorem calls_spaced_exactly_interval_counterexample:
  "fst (invoke (Throttle_call plain_throttle 2 3 4 (def_callable None ''Player.update'' False demo_body))
        (receiver_call 5 False) fresh) = Inr (Value (Some 7)) \<and>
   now (snd (invoke (Throttle_call plain_throttle 2 3 4 (def_callable None ''Player.update'' False demo_body))
        (receiver_call 5 False) fresh)) = 3 \<and>
   13 - 3 \<ge> min_time plain_throttle \<and>
   invoke (Throttle_call plain_throttle 2 3 4 (def_callable None ''Player.update'' False demo_body))
        (receiver_call 5 False)
        ((snd (invoke (Throttle_call plain_throttle 2 3 4 (def_callable None ''Player.update'' False demo_body))
           (receiver_call 5 False) fresh))\<lparr>now := 13\<rparr>) =
     (Inr (Value None),
      (snd (invoke (Throttle_call plain_throttle 2 3 4 (def_callable None ''Player.update'' False demo_body))
           (receiver_call 5 False) fresh))\<lparr>now := 13\<rparr>) \<and>
   now (snd (invoke (Throttle_call slow_limit_throttle 2 3 4 (def_callable None ''Player.update'' False demo_body))
        (receiver_call 5 False) fresh)) = 3 \<and>
   33 - 3 \<ge> min_time slow_limit_throttle \<and>
   fst (invoke (Throttle_call slow_limit_throttle 2 3 4 (def_callable None ''Player.update'' False demo_body))
        (receiver_call 5 False)
        ((snd (invoke (Throttle_call slow_limit_throttle 2 3 4 (def_callable None ''Player.update'' False demo_body))
           (receiver_call 5 False) fresh))\<lparr>now := 33\<rparr>)) = Inr (Value None) \<and>
   executed (snd (invoke (Throttle_call slow_limit_throttle 2 3 4 (def_callable None ''Player.update'' False demo_body))
        (receiver_call 5 False)
        ((snd (invoke (Throttle_call slow_limit_throttle 2 3 4 (def_callable None ''Player.update'' False demo_body))
           (receiver_call 5 False) fresh))\<lparr>now := 33\<rparr>))) = 1"
  by (simp add: demo_plain_first demo_slow_limit_first) (simp add: eval_defs slow_limit_throttle_def)

text \<open>Claim C3.  A call with \<^verbatim>\<open>no_throttle=True\<close> finds the lock of its entry free.  Without
  \<^verbatim>\<open>limit_no_throttle\<close> it executes the decorated callable, whatever time stamp is recorded.
  With \<^verbatim>\<open>limit_no_throttle = l\<close>, if the nested throttle's entry records a time stamp not more
  than \<open>l\<close> ago, the call returns the stand-in \<^verbatim>\<open>None\<close> and the decorated callable is not
  executed.\<close>

theorem forced_call:
  fixes b :: "('x, 'v) body" and slf qn is_async self iid iwid wid
  defines "M \<equiv> def_callable slf qn is_async b"
  defines "W \<equiv> Throttle_call self iid iwid wid M"
  assumes ne: "iid \<noteq> ident self"
    and forced: "no_throttle a"
    and free: "\<not> lock_held s (primary_host self iid iwid wid M a) (ident self)"
  shows "(limit_no_throttle self = None \<longrightarrow> runs_delegate M a s (invoke W a s)) \<and>
         (\<forall>l t. limit_no_throttle self = Some l \<and>
                last_success_of s (secondary_host iwid M a) iid = Some t \<and> now s - t \<le> l \<longrightarrow>
            fst (invoke W a s) = Inr (throttled_value is_async) \<and>
            \<not> runs_delegate M a s (invoke W a s) \<and>
            executed (snd (invoke W a s)) = executed s)"
proof -
  note Meq = M_def [THEN meta_eq_to_obj_eq] and Weq = W_def [THEN meta_eq_to_obj_eq]
  have p: "passes s (primary_host self iid iwid wid M a) (ident self) (min_time self) (no_throttle a)"
    using forced free by (simp add: passes_forced)
  have one: "runs_delegate M a s (invoke W a s)" if "limit_no_throttle self = None"
    by (rule admitted_run(1) [OF Meq Weq refl refl ne p]) (simp add: secondary_passes_def that)
  have two: "fst (invoke W a s) = Inr (throttled_value is_async) \<and>
            \<not> runs_delegate M a s (invoke W a s) \<and>
            executed (snd (invoke W a s)) = executed s"
    if l: "limit_no_throttle self = Some l"
      and t: "last_success_of s (secondary_host iwid M a) iid = Some t" and w: "now s - t \<le> l"
    for l t
  proof -
    have n: "\<not> secondary_passes self s (secondary_host iwid M a) iid"
      using l t w by (auto simp add: secondary_passes_def passes_def last_success_of_def split: option.splits)
    note j = rejected_by_secondary [OF Meq Weq refl refl ne p n]
    have "\<not> runs_delegate M a s (Inr (throttled_value is_async), snd (invoke W a s))"
      unfolding M_def by (rule not_runs_delegate_throttled) (rule j(3))
    then have "\<not> runs_delegate M a s (invoke W a s)"
      using pair_fst_snd [OF j(1)] by simp
    with j(1) j(3) show ?thesis by simp
  qed
  from one two show ?thesis by blast
qed

theorem forced_call_witness:
  "2 \<noteq> ident plain_throttle \<and>
   no_throttle (receiver_call 5 True) \<and>
   \<not> lock_held
       ((snd (invoke (Throttle_call plain_throttle 2 3 4 (def_callable None ''Player.update'' False demo_body))
          (receiver_call 5 False) fresh))\<lparr>now := 5\<rparr>)
       (primary_host plain_throttle 2 3 4 (def_callable None ''Player.update'' False demo_body) (receiver_call 5 True))
       (ident plain_throttle) \<and>
   limit_no_throttle plain_throttle = None \<and>
   last_success_of
       ((snd (invoke (Throttle_call plain_throttle 2 3 4 (def_callable None ''Player.update'' False demo_body))
          (receiver_call 5 False) fresh))\<lparr>now := 5\<rparr>) (Object 5) 1 = Some 3 \<and>
   5 - 3 < min_time plain_throttle \<and>
   runs_delegate (def_callable None ''Player.update'' False demo_body) (receiver_call 5 True)
       ((snd (invoke (Throttle_call plain_throttle 2 3 4 (def_callable None ''Player.update'' False demo_body))
          (receiver_call 5 False) fresh))\<lparr>now := 5\<rparr>)
       (invoke (Throttle_call plain_throttle 2 3 4 (def_callable None ''Player.update'' False demo_body))
          (receiver_call 5 True)
          ((snd (invoke (Throttle_call plain_throttle 2 3 4 (def_callable None ''Player.update'' False demo_body))
             (receiver_call 5 False) fresh))\<lparr>now := 5\<rparr>)) \<and>
   2 \<noteq> ident limited_throttle \<and>
   \<not> lock_held
       ((snd (invoke (Throttle_call limited_throttle 2 3 4 (def_callable None ''Player.update'' False demo_body))
          (receiver_call 5 False) fresh))\<lparr>now := 5\<rparr>)
       (primary_host limited_throttle 2 3 4 (def_callable None ''Player.update'' False demo_body) (receiver_call 5 True))
       (ident limited_throttle) \<and>
   limit_no_throttle limited_throttle = Some 5 \<and>
   last_success_of
       ((snd (invoke (Throttle_call limited_throttle 2 3 4 (def_callable None ''Player.update'' False demo_body))
          (receiver_call 5 False) fresh))\<lparr>now := 5\<rparr>)
       (secondary_host 3 (def_callable None ''Player.update'' False demo_body) (receiver_call 5 True)) 2 = Some 3 \<and>
   now ((snd (invoke (Throttle_call limited_throttle 2 3 4 (def_callable None ''Player.update'' False demo_body))
          (receiver_call 5 False) fresh))\<lparr>now := 5\<rparr>) - 3 \<le> 5 \<and>
   fst (invoke (Throttle_call limited_throttle 2 3 4 (def_callable None ''Player.update'' False demo_body))
          (receiver_call 5 True)
          ((snd (invoke (Throttle_call limited_throttle 2 3 4 (def_callable None ''Player.update'' False demo_body))
             (receiver_call 5 False) fresh))\<lparr>now := 5\<rparr>)) = Inr (Value None) \<and>
   executed (snd (invoke (Throttle_call limited_throttle 2 3 4 (def_callable None ''Player.update'' False demo_body))
          (receiver_call 5 True)
          ((snd (invoke (Throttle_call limited_throttle 2 3 4 (def_callable None ''Player.update'' False demo_body))
             (receiver_call 5 False) fresh))\<lparr>now := 5\<rparr>))) = 1"
proof -
  let ?M = "def_callable None ''Player.update'' False demo_body :: (string, nat) callable"
  let ?W = "Throttle_call plain_throttle 2 3 4 ?M"
  let ?V = "Throttle_call limited_throttle 2 3 4 ?M"
  let ?s = "(snd (invoke ?W (receiver_call 5 False) fresh))\<lparr>now := 5\<rparr>"
  let ?u = "(snd (invoke ?V (receiver_call 5 False) fresh))\<lparr>now := 5\<rparr>"
  let ?a = "receiver_call 5 True"
  have ne: "2 \<noteq> ident plain_throttle" "2 \<noteq> ident limited_throttle"
    by (simp_all add: plain_throttle_def limited_throttle_def)
  have f: "no_throttle ?a" by (simp add: receiver_call_def)
  have free: "\<not> lock_held ?s (primary_host plain_throttle 2 3 4 ?M ?a) (ident plain_throttle)"
    by (simp add: demo_plain_first) (simp add: lock_held_def get_entry_def plain_throttle_def)
  have free': "\<not> lock_held ?u (primary_host limited_throttle 2 3 4 ?M ?a) (ident limited_throttle)"
    by (simp add: demo_limited_first) (simp add: lock_held_def get_entry_def limited_throttle_def)
  have lim: "limit_no_throttle plain_throttle = None" "limit_no_throttle limited_throttle = Some 5"
    by (simp_all add: plain_throttle_def limited_throttle_def)
  have rec: "last_success_of ?s (Object 5) 1 = Some 3" "5 - 3 < min_time plain_throttle"
    by (simp_all add: demo_plain_first) (simp_all add: last_success_of_def get_entry_def plain_throttle_def)
  have rec': "last_success_of ?u (secondary_host 3 ?M ?a) 2 = Some 3" "now ?u - 3 \<le> 5"
    by (simp_all add: demo_limited_first) (simp_all add: last_success_of_def get_entry_def)
  have ex: "executed ?u = 1" by (simp add: demo_limited_first)
  have tv: "throttled_value False = (Value None :: nat retval)" by (simp add: throttled_value_def)
  from forced_call [OF ne(1) f free] forced_call [OF ne(2) f free'] ne f free free' lim rec rec' ex
  show ?thesis by (simp add: tv)
qed

text \<open>Claim C5, as the code has it.  When the decorated callable is not run, the call
  returns the stand-in \<^verbatim>\<open>None\<close> and leaves the time stamp of every entry as it was, with one
  exception: a call that the throttle itself admits and its nested forced-call throttle
  rejects sets the time stamp of the throttle's own entry to the current time (line 90 runs
  after the nested wrapper has returned its stand-in).  Without \<^verbatim>\<open>limit_no_throttle\<close> the
  whole state is as it was.\<close>

theorem throttled_call_keeps_last_success:
  fixes b :: "('x, 'v) body" and slf qn is_async self iid iwid wid
  defines "M \<equiv> def_callable slf qn is_async b"
  defines "W \<equiv> Throttle_call self iid iwid wid M"
  assumes ne: "iid \<noteq> ident self"
    and not_run: "\<not> runs_delegate M a s (invoke W a s)"
  shows "fst (invoke W a s) = Inr (throttled_value is_async) \<and>
         executed (snd (invoke W a s)) = executed s \<and>
         (\<forall>h k. last_success_of (snd (invoke W a s)) h k =
            (if h = primary_host self iid iwid wid M a \<and> k = ident self \<and>
                passes s (primary_host self iid iwid wid M a) (ident self) (min_time self) (no_throttle a)
             then Some (now s) else last_success_of s h k)) \<and>
         (limit_no_throttle self = None \<longrightarrow> snd (invoke W a s) = s)"
proof (cases "passes s (primary_host self iid iwid wid M a) (ident self) (min_time self) (no_throttle a)")
  case False
  then have "invoke W a s = (Inr (throttled_value is_async), s)"
    using primary_blocked [of s self iid iwid wid M a] by (simp add: W_def M_def)
  with False show ?thesis by simp
next
  case True
  note Meq = M_def [THEN meta_eq_to_obj_eq] and Weq = W_def [THEN meta_eq_to_obj_eq]
  have n: "\<not> secondary_passes self s (secondary_host iwid M a) iid"
    using admitted_run(1) [OF Meq Weq refl refl ne True] not_run by blast
  then have lim: "limit_no_throttle self \<noteq> None"
    by (auto simp add: secondary_passes_def split: option.splits)
  note j = rejected_by_secondary [OF Meq Weq refl refl ne True n]
  show ?thesis using True lim by (auto simp add: j(1) j(3) j(4) last_success_of_def)
qed

theorem throttled_call_keeps_last_success_witness:
  "2 \<noteq> ident plain_throttle \<and>
   \<not> runs_delegate (def_callable None ''Player.update'' False demo_body) (receiver_call 5 False)
       ((snd (invoke (Throttle_call plain_throttle 2 3 4 (def_callable None ''Player.update'' False demo_body))
          (receiver_call 5 False) fresh))\<lparr>now := 5\<rparr>)
       (invoke (Throttle_call plain_throttle 2 3 4 (def_callable None ''Player.update'' False demo_body))
          (receiver_call 5 False)
          ((snd (invoke (Throttle_call plain_throttle 2 3 4 (def_callable None ''Player.update'' False demo_body))
             (receiver_call 5 False) fresh))\<lparr>now := 5\<rparr>)) \<and>
   limit_no_throttle plain_throttle = None \<and>
   fst (invoke (Throttle_call plain_throttle 2 3 4 (def_callable None ''Player.update'' False demo_body))
          (receiver_call 5 False)
          ((snd (invoke (Throttle_call plain_throttle 2 3 4 (def_callable None ''Player.update'' False demo_body))
             (receiver_call 5 False) fresh))\<lparr>now := 5\<rparr>)) = Inr (Value None) \<and>
   snd (invoke (Throttle_call plain_throttle 2 3 4 (def_callable None ''Player.update'' False demo_body))
          (receiver_call 5 False)
          ((snd (invoke (Throttle_call plain_throttle 2 3 4 (def_callable None ''Player.update'' False demo_body))
             (receiver_call 5 False) fresh))\<lparr>now := 5\<rparr>)) =
     (snd (invoke (Throttle_call plain_throttle 2 3 4 (def_callable None ''Player.update'' False demo_body))
             (receiver_call 5 False) fresh))\<lparr>now := 5\<rparr>"
proof -
  let ?M = "def_callable None ''Player.update'' False demo_body :: (string, nat) callable"
  let ?W = "Throttle_call plain_throttle 2 3 4 ?M"
  let ?s = "(snd (invoke ?W (receiver_call 5 False) fresh))\<lparr>now := 5\<rparr>"
  let ?a = "receiver_call 5 False"
  have ne: "2 \<noteq> ident plain_throttle" by (simp add: plain_throttle_def)
  have nr: "\<not> runs_delegate ?M ?a ?s (invoke ?W ?a ?s)"
    by (simp add: demo_plain_first runs_delegate_def) (simp add: eval_defs)
  have lim: "limit_no_throttle plain_throttle = None" by (simp add: plain_throttle_def)
  have tv: "throttled_value False = (Value None :: nat retval)" by (simp add: throttled_value_def)
  from throttled_call_keeps_last_success [OF ne nr] ne nr lim
  show ?thesis by (simp add: tv)
qed

text \<open>Claim C5 as stated fails.  With \<^verbatim>\<open>min_time\<close> 10 and \<^verbatim>\<open>limit_no_throttle\<close> 5, a first call
  at time 0 returns at time 3 and both entries record 3.  A call with \<^verbatim>\<open>no_throttle=True\<close> at
  time 5 is rejected by the nested throttle: it returns \<^verbatim>\<open>None\<close>, the method has still run
  once only, and yet the time stamp of the throttle's own entry has moved from 3 to 5.\<close>

theorem rejected_forced_call_counterexample:
  "last_success_of
       ((snd (invoke (Throttle_call limited_throttle 2 3 4 (def_callable None ''Player.update'' False demo_body))
          (receiver_call 5 False) fresh))\<lparr>now := 5\<rparr>) (Object 5) (ident limited_throttle) = Some 3 \<and>
   executed
       ((snd (invoke (Throttle_call limited_throttle 2 3 4 (def_callable None ''Player.update'' False demo_body))
          (receiver_call 5 False) fresh))\<lparr>now := 5\<rparr>) = 1 \<and>
   fst (invoke (Throttle_call limited_throttle 2 3 4 (def_callable None ''Player.update'' False demo_body))
          (receiver_call 5 True)
          ((snd (invoke (Throttle_call limited_throttle 2 3 4 (def_callable None ''Player.update'' False demo_body))
             (receiver_call 5 False) fresh))\<lparr>now := 5\<rparr>)) = Inr (Value None) \<and>
   executed (snd (invoke (Throttle_call limited_throttle 2 3 4 (def_callable None ''Player.update'' False demo_body))
          (receiver_call 5 True)
          ((snd (invoke (Throttle_call limited_throttle 2 3 4 (def_callable None ''Player.update'' False demo_body))
             (receiver_call 5 False) fresh))\<lparr>now := 5\<rparr>))) = 1 \<and>
   last_success_of
       (snd (invoke (Throttle_call limited_throttle 2 3 4 (def_callable None ''Player.update'' False demo_body))
          (receiver_call 5 True)
          ((snd (invoke (Throttle_call limited_throttle 2 3 4 (def_callable None ''Player.update'' False demo_body))
             (receiver_call 5 False) fresh))\<lparr>now := 5\<rparr>))) (Object 5) (ident limited_throttle) = Some 5"
  by (simp add: demo_limited_first) (simp add: eval_defs)




text \<open>Claim C8 does not hold of the code.  The class documentation promises a datetime
  attribute \<^verbatim>\<open>last_call\<close> on the method, but \<^verbatim>\<open>wrapper\<close> writes one attribute only,
  \<^verbatim>\<open>_throttle\<close>, and writes it on the host of the call.  For a method the host is the
  receiver: after a call the wrapper function objects (identities 3 and 4) carry nothing,
  and the time stamp is to be found under the receiver's \<^verbatim>\<open>_throttle\<close> only.\<close>

theorem time_stamp_only_under_receiver:
  "throttle_attr (snd (invoke (Throttle_call limited_throttle 2 3 4
        (def_callable None ''Player.update'' False demo_body)) (receiver_call 5 False) fresh)) (Function 4) = None \<and>
   throttle_attr (snd (invoke (Throttle_call limited_throttle 2 3 4
        (def_callable None ''Player.update'' False demo_body)) (receiver_call 5 False) fresh)) (Function 3) = None \<and>
   last_success_of (snd (invoke (Throttle_call limited_throttle 2 3 4
        (def_callable None ''Player.update'' False demo_body)) (receiver_call 5 False) fresh))
      (Object 5) (ident limited_throttle) = Some 3"
  by (simp add: demo_limited_first) (simp add: last_success_of_def get_entry_def limited_throttle_def)

text \<open>Claim C6, as the code has it.  The call is admitted.  If the decorated callable is
  synchronous and raises \<open>x\<close>, the call raises \<open>x\<close>; the callable has run in a state in
  which the locks of the throttle's entry and of the nested throttle's entry are held, the
  locks are still held where the exception leaves it, and the state after the call is the
  one the callable left with those locks released; no entry's time stamp has changed, and
  a later call on the same entity whose intervals have passed (measured from the time
  stamps as they were), or that is forced, executes the decorated callable.  If the
  decorated callable is asynchronous, the call returns its coroutine with the lock
  released and the time stamp already recorded: an exception raised when the coroutine is
  awaited reaches the awaiter, and the time stamp stays.  Whatever the decorated callable
  is, an admitted call calls it in the state with the locks held: a callable that inspects
  the lock finds it held.\<close>

theorem delegate_exception:
  fixes b :: "('x, 'v) body" and slf qn is_async self iid iwid wid a s
  defines "M \<equiv> def_callable slf qn is_async b"
  defines "W \<equiv> Throttle_call self iid iwid wid M"
  defines "H \<equiv> primary_host self iid iwid wid M a"
  defines "Hs \<equiv> secondary_host iwid M a"
  defines "s' \<equiv> snd (invoke W a s)"
  defines "ds \<equiv> delegate_state self iid iwid wid M a s"
  assumes ne: "iid \<noteq> ident self"
    and adm: "passes s H (ident self) (min_time self) (no_throttle a)"
    and sadm: "secondary_passes self s Hs iid"
  shows "(\<not> is_async \<and> fst (b (positional a) (now s)) = Inl x \<longrightarrow>
            fst (invoke W a s) = Inl x \<and>
            lock_held ds H (ident self) \<and>
            (limit_no_throttle self = None \<or> lock_held ds Hs iid) \<and>
            fst (invoke M (a\<lparr>no_throttle := False\<rparr>) ds) = Inl x \<and>
            lock_held (snd (invoke M (a\<lparr>no_throttle := False\<rparr>) ds)) H (ident self) \<and>
            s' = released self iid iwid wid M a (snd (invoke M (a\<lparr>no_throttle := False\<rparr>) ds)) \<and>
            \<not> lock_held s' H (ident self) \<and>
            (limit_no_throttle self = None \<or> \<not> lock_held s' Hs iid) \<and>
            (\<forall>h k. last_success_of s' h k = last_success_of s h k) \<and>
            (\<forall>a2 t2.
               primary_host self iid iwid wid M a2 = H \<and> secondary_host iwid M a2 = Hs \<and>
               (no_throttle a2 \<or>
                (case last_success_of s H (ident self) of None \<Rightarrow> True | Some t \<Rightarrow> t2 - t > min_time self)) \<and>
               (case limit_no_throttle self of
                  None \<Rightarrow> True
                | Some l \<Rightarrow> (case last_success_of s Hs iid of None \<Rightarrow> True | Some t \<Rightarrow> t2 - t > l))
               \<longrightarrow> runs_delegate M a2 (s'\<lparr>now := t2\<rparr>) (invoke W a2 (s'\<lparr>now := t2\<rparr>)))) \<and>
         (is_async \<longrightarrow>
            fst (invoke W a s) = Inr (Coroutine (MethodBody (positional a))) \<and>
            executed s' = executed s \<and>
            \<not> lock_held s' H (ident self) \<and>
            last_success_of s' H (ident self) = Some (now s) \<and>
            (\<forall>t. fst (b (positional a) t) = Inl x \<longrightarrow>
               fst (await b (MethodBody (positional a)) (s'\<lparr>now := t\<rparr>)) = Inl x \<and>
               last_success_of (snd (await b (MethodBody (positional a)) (s'\<lparr>now := t\<rparr>))) H (ident self) =
                 Some (now s))) \<and>
         (\<forall>p :: ('x, 'v) callable.
            passes s (primary_host self iid iwid wid p a) (ident self) (min_time self) (no_throttle a) \<and>
            secondary_passes self s (secondary_host iwid p a) iid \<longrightarrow>
            fst (invoke (Throttle_call self iid iwid wid p) a s) =
              fst (invoke p (a\<lparr>no_throttle := False\<rparr>) (delegate_state self iid iwid wid p a s)))"
proof -
  note Meq = M_def [THEN meta_eq_to_obj_eq] and Weq = W_def [THEN meta_eq_to_obj_eq]
    and Heq = H_def [THEN meta_eq_to_obj_eq] and Hseq = Hs_def [THEN meta_eq_to_obj_eq]
  note r = admitted_run [OF Meq Weq Heq Hseq ne adm sadm, folded s'_def]
  have probe: "fst (invoke (Throttle_call self iid iwid wid p) a s) =
              fst (invoke p (a\<lparr>no_throttle := False\<rparr>) (delegate_state self iid iwid wid p a s))"
    if "passes s (primary_host self iid iwid wid p a) (ident self) (min_time self) (no_throttle a)"
      and "secondary_passes self s (secondary_host iwid p a) iid" for p :: "('x, 'v) callable"
    using ne that by (rule called_in_delegate_state)
  have sync: "fst (invoke W a s) = Inl x \<and>
            lock_held ds H (ident self) \<and>
            (limit_no_throttle self = None \<or> lock_held ds Hs iid) \<and>
            fst (invoke M (a\<lparr>no_throttle := False\<rparr>) ds) = Inl x \<and>
            lock_held (snd (invoke M (a\<lparr>no_throttle := False\<rparr>) ds)) H (ident self) \<and>
            s' = released self iid iwid wid M a (snd (invoke M (a\<lparr>no_throttle := False\<rparr>) ds)) \<and>
            \<not> lock_held s' H (ident self) \<and>
            (limit_no_throttle self = None \<or> \<not> lock_held s' Hs iid) \<and>
            (\<forall>h k. last_success_of s' h k = last_success_of s h k) \<and>
            (\<forall>a2 t2.
               primary_host self iid iwid wid M a2 = H \<and> secondary_host iwid M a2 = Hs \<and>
               (no_throttle a2 \<or>
                (case last_success_of s H (ident self) of None \<Rightarrow> True | Some t \<Rightarrow> t2 - t > min_time self)) \<and>
               (case limit_no_throttle self of
                  None \<Rightarrow> True
                | Some l \<Rightarrow> (case last_success_of s Hs iid of None \<Rightarrow> True | Some t \<Rightarrow> t2 - t > l))
               \<longrightarrow> runs_delegate M a2 (s'\<lparr>now := t2\<rparr>) (invoke W a2 (s'\<lparr>now := t2\<rparr>)))"
    if na: "\<not> is_async" and bx: "fst (b (positional a) (now s)) = Inl x"
  proof -
    have dx: "fst (invoke M (a\<lparr>no_throttle := False\<rparr>) ds) = Inl x"
      using na bx by (auto simp add: M_def ds_def def_callable_def run_body_def split: prod.splits sum.splits)
    have fin: "invoke W a s = (Inl x, released self iid iwid wid M a
        (snd (invoke M (a\<lparr>no_throttle := False\<rparr>) ds)))"
      unfolding ds_def by (rule raised_final_state [OF Meq Weq Heq Hseq ne adm sadm dx [unfolded ds_def]])
    have raised: "fst (invoke W a s) = Inl x" using fin by simp
    have c6: "s' = released self iid iwid wid M a (snd (invoke M (a\<lparr>no_throttle := False\<rparr>) ds))"
      using fin by (simp add: s'_def)
    have held: "lock_held ds H (ident self)" "limit_no_throttle self = None \<or> lock_held ds Hs iid"
      using lock_held_delegate_state [OF ne, of iwid wid M a s]
      by (cases "limit_no_throttle self"; simp add: ds_def H_def Hs_def)+
    have held': "lock_held (snd (invoke M (a\<lparr>no_throttle := False\<rparr>) ds)) H (ident self)"
      using held(1) by (simp add: lock_held_def M_def)
    have isl: "isl (fst (invoke W a s))" using raised by simp
    have e1: "get_entry s' H (ident self) = Some \<lparr>locked = False, last_success = last_success_of s H (ident self)\<rparr>"
      using r(2) isl by simp
    have e2: "get_entry s' Hs iid = Some \<lparr>locked = False, last_success = last_success_of s Hs iid\<rparr>"
      if "limit_no_throttle self \<noteq> None"
      using r(3) [OF that] isl by simp
    have c2: "\<not> lock_held s' H (ident self)" using e1 by (simp add: lock_held_def)
    have c3: "limit_no_throttle self = None \<or> \<not> lock_held s' Hs iid"
      using e2 by (auto simp add: lock_held_def)
    have c4: "last_success_of s' h k = last_success_of s h k" for h k
    proof (cases "h = H \<and> k = ident self")
      case True
      then show ?thesis using e1 by (simp add: last_success_of_def)
    next
      case n1: False
      show ?thesis
      proof (cases "limit_no_throttle self \<noteq> None \<and> h = Hs \<and> k = iid")
        case True
        then show ?thesis using e2 by (simp add: last_success_of_def)
      next
        case False
        then have "get_entry s' h k = get_entry s h k" using n1 by (intro r(4)) auto
        then show ?thesis by (simp add: last_success_of_def)
      qed
    qed
    have c5: "runs_delegate M a2 (s'\<lparr>now := t2\<rparr>) (invoke W a2 (s'\<lparr>now := t2\<rparr>))"
      if h: "primary_host self iid iwid wid M a2 = H" and hs: "secondary_host iwid M a2 = Hs"
        and t: "no_throttle a2 \<or>
               (case last_success_of s H (ident self) of None \<Rightarrow> True | Some t \<Rightarrow> t2 - t > min_time self)"
        and ts: "case limit_no_throttle self of
                 None \<Rightarrow> True
               | Some l \<Rightarrow> (case last_success_of s Hs iid of None \<Rightarrow> True | Some t \<Rightarrow> t2 - t > l)"
      for a2 t2
    proof -
      have p2: "passes (s'\<lparr>now := t2\<rparr>) (primary_host self iid iwid wid M a2) (ident self) (min_time self)
          (no_throttle a2)"
        using e1 t by (auto simp add: passes_now_update h split: option.splits)
      have s2: "secondary_passes self (s'\<lparr>now := t2\<rparr>) (secondary_host iwid M a2) iid"
        using e2 ts by (auto simp add: secondary_passes_now_update hs split: option.splits)
      show ?thesis by (rule admitted_run(1) [OF Meq Weq refl refl ne p2 s2])
    qed
    from raised held dx held' c6 c2 c3 c4 c5 show ?thesis by blast
  qed
  have async: "fst (invoke W a s) = Inr (Coroutine (MethodBody (positional a))) \<and>
            executed s' = executed s \<and>
            \<not> lock_held s' H (ident self) \<and>
            last_success_of s' H (ident self) = Some (now s) \<and>
            (\<forall>t. fst (b (positional a) t) = Inl x \<longrightarrow>
               fst (await b (MethodBody (positional a)) (s'\<lparr>now := t\<rparr>)) = Inl x \<and>
               last_success_of (snd (await b (MethodBody (positional a)) (s'\<lparr>now := t\<rparr>))) H (ident self) =
                 Some (now s))"
    if ia: "is_async"
  proof -
    note ra = runs_delegate_async [OF r(1) [unfolded M_def ia [THEN eqTrueI]], folded s'_def]
    have e: "get_entry s' H (ident self) = Some \<lparr>locked = False, last_success = Some (now s)\<rparr>"
      using r(2) ra by simp
    then show ?thesis using ra by (simp add: lock_held_def last_success_of_def fst_await_method)
  qed
  from sync async probe show ?thesis by blast
qed

theorem delegate_exception_witness:
  "2 \<noteq> ident plain_throttle \<and>
   passes fresh
     (primary_host plain_throttle 2 3 4 (def_callable None ''Player.update'' False failing_body) (receiver_call 5 False))
     (ident plain_throttle) (min_time plain_throttle) (no_throttle (receiver_call 5 False)) \<and>
   secondary_passes plain_throttle fresh
     (secondary_host 3 (def_callable None ''Player.update'' False failing_body) (receiver_call 5 False)) 2 \<and>
   fst (failing_body (positional (receiver_call 5 False)) (now fresh)) = Inl ''ConnectionError'' \<and>
   fst (invoke (Throttle_call plain_throttle 2 3 4 (def_callable None ''Player.update'' False failing_body))
      (receiver_call 5 False) fresh) = Inl ''ConnectionError'' \<and>
   lock_held (delegate_state plain_throttle 2 3 4 (def_callable None ''Player.update'' False failing_body)
      (receiver_call 5 False) fresh) (Object 5) (ident plain_throttle) \<and>
   \<not> lock_held (snd (invoke (Throttle_call plain_throttle 2 3 4
        (def_callable None ''Player.update'' False failing_body)) (receiver_call 5 False) fresh))
      (Object 5) (ident plain_throttle) \<and>
   last_success_of fresh (Object 5) (ident plain_throttle) = None \<and>
   last_success_of (snd (invoke (Throttle_call plain_throttle 2 3 4
        (def_callable None ''Player.update'' False failing_body)) (receiver_call 5 False) fresh))
      (Object 5) (ident plain_throttle) = None \<and>
   limit_no_throttle plain_throttle = None \<and>
   runs_delegate (def_callable None ''Player.update'' False failing_body) (receiver_call 5 False)
     ((snd (invoke (Throttle_call plain_throttle 2 3 4
        (def_callable None ''Player.update'' False failing_body)) (receiver_call 5 False) fresh))\<lparr>now := 4\<rparr>)
     (invoke (Throttle_call plain_throttle 2 3 4 (def_callable None ''Player.update'' False failing_body))
        (receiver_call 5 False)
        ((snd (invoke (Throttle_call plain_throttle 2 3 4
           (def_callable None ''Player.update'' False failing_body)) (receiver_call 5 False) fresh))\<lparr>now := 4\<rparr>)) \<and>
   passes fresh
     (primary_host plain_throttle 2 3 4 (def_callable None ''Player.update'' True failing_body) (receiver_call 5 False))
     (ident plain_throttle) (min_time plain_throttle) (no_throttle (receiver_call 5 False)) \<and>
   secondary_passes plain_throttle fresh
     (secondary_host 3 (def_callable None ''Player.update'' True failing_body) (receiver_call 5 False)) 2 \<and>
   fst (failing_body (positional (receiver_call 5 False)) 2) = Inl ''ConnectionError'' \<and>
   fst (invoke (Throttle_call plain_throttle 2 3 4 (def_callable None ''Player.update'' True failing_body))
      (receiver_call 5 False) fresh) = Inr (Coroutine (MethodBody [5])) \<and>
   last_success_of (snd (invoke (Throttle_call plain_throttle 2 3 4
        (def_callable None ''Player.update'' True failing_body)) (receiver_call 5 False) fresh))
      (Object 5) (ident plain_throttle) = Some 0 \<and>
   fst (await failing_body (MethodBody [5])
      ((snd (invoke (Throttle_call plain_throttle 2 3 4
        (def_callable None ''Player.update'' True failing_body)) (receiver_call 5 False) fresh))\<lparr>now := 2\<rparr>)) =
     Inl ''ConnectionError'' \<and>
   passes fresh (primary_host plain_throttle 2 3 4 (lock_probe (Object 5) 1) (receiver_call 5 False))
     (ident plain_throttle) (min_time plain_throttle) (no_throttle (receiver_call 5 False)) \<and>
   secondary_passes plain_throttle fresh (secondary_host 3 (lock_probe (Object 5) 1) (receiver_call 5 False)) 2 \<and>
   fst (invoke (lock_probe (Object 5) 1) (receiver_call 5 False) fresh) = Inr (Value None) \<and>
   fst (invoke (Throttle_call plain_throttle 2 3 4 (lock_probe (Object 5) 1)) (receiver_call 5 False) fresh) =
     Inl ''locked''"
proof -
  let ?M = "def_callable None ''Player.update'' False failing_body :: (string, nat) callable"
  let ?N = "def_callable None ''Player.update'' True failing_body :: (string, nat) callable"
  let ?W = "Throttle_call plain_throttle 2 3 4 ?M"
  let ?V = "Throttle_call plain_throttle 2 3 4 ?N"
  let ?a = "receiver_call 5 False"
  have ne: "2 \<noteq> ident plain_throttle" by (simp add: plain_throttle_def)
  have adm: "passes fresh (primary_host plain_throttle 2 3 4 ?M ?a) (ident plain_throttle)
      (min_time plain_throttle) (no_throttle ?a)"
    by (simp add: passes_def get_entry_def fresh_def)
  have sadm: "secondary_passes plain_throttle fresh (secondary_host 3 ?M ?a) 2"
    by (simp add: secondary_passes_def plain_throttle_def)
  have adm': "passes fresh (primary_host plain_throttle 2 3 4 ?N ?a) (ident plain_throttle)
      (min_time plain_throttle) (no_throttle ?a)"
    by (simp add: passes_def get_entry_def fresh_def)
  have sadm': "secondary_passes plain_throttle fresh (secondary_host 3 ?N ?a) 2"
    by (simp add: secondary_passes_def plain_throttle_def)
  have bx: "fst (failing_body (positional ?a) (now fresh)) = Inl ''ConnectionError''"
    "fst (failing_body (positional ?a) 2) = Inl ''ConnectionError''"
    by (simp_all add: failing_body_def)
  have lim: "limit_no_throttle plain_throttle = None" by (simp add: plain_throttle_def)
  have ls: "last_success_of fresh (Object 5) (ident plain_throttle) = None"
    by (simp add: last_success_of_def get_entry_def fresh_def)
  have pos: "positional ?a = [5]" "now fresh = 0" by (simp_all add: receiver_call_def fresh_def)
  have nb: "\<not> False \<and> fst (failing_body (positional ?a) (now fresh)) = Inl ''ConnectionError''"
    using bx(1) by simp
  note t = delegate_exception [OF ne adm sadm, where x = "''ConnectionError''", THEN conjunct1, rule_format,
      OF nb]
  note u = delegate_exception [OF ne adm' sadm', where x = "''ConnectionError''", THEN conjunct2,
      THEN conjunct1, rule_format, OF TrueI]
  have c5: "runs_delegate ?M ?a ((snd (invoke ?W ?a fresh))\<lparr>now := 4\<rparr>)
               (invoke ?W ?a ((snd (invoke ?W ?a fresh))\<lparr>now := 4\<rparr>))"
    by (rule t [THEN conjunct2, THEN conjunct2, THEN conjunct2, THEN conjunct2, THEN conjunct2,
          THEN conjunct2, THEN conjunct2, THEN conjunct2, THEN conjunct2, rule_format])
       (simp add: ls lim)
  have aw: "fst (await failing_body (MethodBody [5]) ((snd (invoke ?V ?a fresh))\<lparr>now := 2\<rparr>)) =
     Inl ''ConnectionError''"
    using u [THEN conjunct2, THEN conjunct2, THEN conjunct2, THEN conjunct2, rule_format, of 2] bx(2)
    by (simp add: pos)
  have c1: "fst (invoke ?W ?a fresh) = Inl ''ConnectionError''"
    using t [THEN conjunct1] .
  have c2: "lock_held (delegate_state plain_throttle 2 3 4 ?M ?a fresh) (Object 5) (ident plain_throttle)"
    using t [THEN conjunct2, THEN conjunct1] by simp
  have c7: "\<not> lock_held (snd (invoke ?W ?a fresh)) (Object 5) (ident plain_throttle)"
    using t [THEN conjunct2, THEN conjunct2, THEN conjunct2, THEN conjunct2, THEN conjunct2,
          THEN conjunct2, THEN conjunct1] by simp
  have c9: "last_success_of (snd (invoke ?W ?a fresh)) (Object 5) (ident plain_throttle) = None"
    using t [THEN conjunct2, THEN conjunct2, THEN conjunct2, THEN conjunct2, THEN conjunct2,
          THEN conjunct2, THEN conjunct2, THEN conjunct2, THEN conjunct1, rule_format,
          of "Object 5" "ident plain_throttle"] ls by simp
  have a1: "fst (invoke ?V ?a fresh) = Inr (Coroutine (MethodBody [5]))"
    using u [THEN conjunct1] by (simp add: pos)
  have a4: "last_success_of (snd (invoke ?V ?a fresh)) (Object 5) (ident plain_throttle) = Some 0"
    using u [THEN conjunct2, THEN conjunct2, THEN conjunct2, THEN conjunct1] by (simp add: pos)
  have hp: "primary_host plain_throttle 2 3 4 (lock_probe (Object 5) 1) ?a = Object 5"
    "secondary_host 3 (lock_probe (Object 5) 1) ?a = Object 5"
    by (simp_all add: primary_host_def secondary_host_def rebound_method_def resolve_host_def is_func_def
        receiver_call_def lock_probe_def plain_throttle_def)
  have pp: "passes fresh (primary_host plain_throttle 2 3 4 (lock_probe (Object 5) 1) ?a)
      (ident plain_throttle) (min_time plain_throttle) (no_throttle ?a)"
    by (simp add: hp passes_def get_entry_def fresh_def)
  have pps: "secondary_passes plain_throttle fresh (secondary_host 3 (lock_probe (Object 5) 1) ?a) 2"
    by (simp add: secondary_passes_def plain_throttle_def)
  have free: "fst (invoke (lock_probe (Object 5) 1) ?a fresh) = Inr (Value None)"
    by (simp add: lock_probe_def lock_held_def get_entry_def fresh_def)
  have ds: "delegate_state plain_throttle 2 3 4 (lock_probe (Object 5) 1) ?a fresh =
      acquired (Object 5) (ident plain_throttle) fresh"
    unfolding delegate_state_def hp by (simp add: lim)
  have lk: "lock_held (acquired (Object 5) (ident plain_throttle) fresh) (Object 5) 1"
    by (simp add: lock_held_def get_entry_acquired plain_throttle_def)
  have pr: "fst (invoke (Throttle_call plain_throttle 2 3 4 (lock_probe (Object 5) 1)) ?a fresh) = Inl ''locked''"
    unfolding delegate_exception [OF ne adm sadm, where x = "''ConnectionError''", THEN conjunct2, THEN conjunct2,
        rule_format, OF conjI [OF pp pps]] ds
    using lk by (simp add: lock_probe_def)
  from ne adm sadm adm' sadm' bx lim ls c1 c2 c7 c9 c5 a1 a4 aw pp pps free pr show ?thesis by simp
qed

text \<open>Claim C6 as stated fails for an asynchronous method.  With \<^verbatim>\<open>min_time\<close> 10 a first
  call at time 0 returns the coroutine of a method that will raise, and has already
  recorded the time stamp 0 where none was recorded.  Awaiting the coroutine at time 2
  raises; the time stamp stays, so that a call at time 8 is answered with the stand-in:
  the failing call counts as the last success.\<close>

theorem async_failure_marks_success_counterexample:
  "last_success_of fresh (Object 5) (ident plain_throttle) = None \<and>
   fst (invoke (Throttle_call plain_throttle 2 3 4 (def_callable None ''Player.update'' True failing_body))
      (receiver_call 5 False) fresh) = Inr (Coroutine (MethodBody [5])) \<and>
   last_success_of (snd (invoke (Throttle_call plain_throttle 2 3 4
        (def_callable None ''Player.update'' True failing_body)) (receiver_call 5 False) fresh))
      (Object 5) (ident plain_throttle) = Some 0 \<and>
   fst (await failing_body (MethodBody [5])
      ((snd (invoke (Throttle_call plain_throttle 2 3 4
        (def_callable None ''Player.update'' True failing_body)) (receiver_call 5 False) fresh))\<lparr>now := 2\<rparr>)) =
     Inl ''ConnectionError'' \<and>
   last_success_of (snd (await failing_body (MethodBody [5])
      ((snd (invoke (Throttle_call plain_throttle 2 3 4
        (def_callable None ''Player.update'' True failing_body)) (receiver_call 5 False) fresh))\<lparr>now := 2\<rparr>)))
      (Object 5) (ident plain_throttle) = Some 0 \<and>
   fst (invoke (Throttle_call plain_throttle 2 3 4 (def_callable None ''Player.update'' True failing_body))
      (receiver_call 5 False)
      ((snd (await failing_body (MethodBody [5])
        ((snd (invoke (Throttle_call plain_throttle 2 3 4
          (def_callable None ''Player.update'' True failing_body)) (receiver_call 5 False) fresh))\<lparr>now := 2\<rparr>)))
       \<lparr>now := 8\<rparr>)) = Inr (Coroutine ThrottledValue)"
  by (simp add: demo_async_failing_first) (simp add: eval_defs await_def)

text \<open>Claim C9, as the code has it.  Two calls of the same wrapped operation go to two
  entities.  No object whose dictionary the first call may use (its hosts, or an object on
  their lookup paths that carries a dictionary) lies on the lookup paths of the hosts of
  the second call.  Then the first call leaves the dictionaries on those paths, and with
  them the entry that the second entity finds, as they were; the second call returns after
  the first what it would have returned without it, at whatever time it is made; and it
  returns the same while the first call holds the lock of its entry.\<close>

theorem entities_with_separate_dictionaries_independent:
  fixes b :: "('x, 'v) body" and slf qn is_async self iid iwid wid a1 a2 s0 and via :: lookup_path
  defines "M \<equiv> def_callable slf qn is_async b"
  defines "W \<equiv> Throttle_call_via via self iid iwid wid M"
  defines "H1 \<equiv> primary_host self iid iwid wid M a1"
  defines "Hs1 \<equiv> secondary_host iwid M a1"
  defines "H2 \<equiv> primary_host self iid iwid wid M a2"
  defines "Hs2 \<equiv> secondary_host iwid M a2"
  defines "P2 \<equiv> set (H2 # via H2) \<union> set (Hs2 # via Hs2)"
  defines "s1 \<equiv> snd (invoke W a1 s0)"
  assumes sep: "(reach via s0 H1 \<union> reach via s0 Hs1) \<inter> P2 = {}"
  shows "(\<forall>h\<in>P2. throttle_attr s1 h = throttle_attr s0 h) \<and>
         get_entry_via via s1 H2 (ident self) = get_entry_via via s0 H2 (ident self) \<and>
         fst (invoke W a2 (s1\<lparr>now := t\<rparr>)) = fst (invoke W a2 (s0\<lparr>now := t\<rparr>)) \<and>
         fst (invoke W a2 (acquired (dict_owner via s0 H1) (ident self) s0)) = fst (invoke W a2 s0)"
proof -
  note Meq = M_def [THEN meta_eq_to_obj_eq]
  have frame: "throttle_attr s1 h = throttle_attr s0 h" if "h \<in> P2" for h
  proof -
    from that sep have "h \<notin> reach via s0 H1" "h \<notin> reach via s0 Hs1" by auto
    then show ?thesis
      unfolding s1_def W_def H1_def Hs1_def by (rule Throttle_call_via_frame [OF Meq])
  qed
  have p: "set (H2 # via H2) \<subseteq> P2" and ps: "set (Hs2 # via Hs2) \<subseteq> P2"
    by (auto simp add: P2_def)
  have ag0: "agree P2 s1 (s0\<lparr>now := now s1\<rparr>)"
    using frame by (simp add: agree_def)
  have ow: "dict_owner via s1 H2 = dict_owner via (s0\<lparr>now := now s1\<rparr>) H2"
    by (rule dict_owner_agree [where via = via, OF ag0 p])
  have ow': "dict_owner via (s0\<lparr>now := now s1\<rparr>) H2 = dict_owner via s0 H2"
    by (simp add: dict_owner_def)
  have "dict_owner via s0 H2 \<in> P2"
    using dict_owner_in_reach [of via s0 H2] reach_subset_path [of via s0 H2] p by blast
  then have e: "get_entry_via via s1 H2 (ident self) = get_entry_via via s0 H2 (ident self)"
    using frame by (simp add: get_entry_via_def ow ow' get_entry_def)
  have ag: "agree P2 (s1\<lparr>now := t\<rparr>) (s0\<lparr>now := t\<rparr>)"
    using frame by (simp add: agree_def)
  have r: "fst (invoke W a2 (s1\<lparr>now := t\<rparr>)) = fst (invoke W a2 (s0\<lparr>now := t\<rparr>))"
    unfolding W_def
    using Throttle_call_via_agree [where via = via, OF Meq ag p [unfolded H2_def] ps [unfolded Hs2_def]]
    by simp
  have "dict_owner via s0 H1 \<notin> P2"
    using dict_owner_in_reach [of via s0 H1] sep by auto
  then have "throttle_attr (acquired (dict_owner via s0 H1) (ident self) s0) h = throttle_attr s0 h"
    if "h \<in> P2" for h
    using that by (intro throttle_attr_acquired_other) auto
  then have ag2: "agree P2 (acquired (dict_owner via s0 H1) (ident self) s0) s0"
    by (simp add: agree_def)
  have r2: "fst (invoke W a2 (acquired (dict_owner via s0 H1) (ident self) s0)) = fst (invoke W a2 s0)"
    unfolding W_def
    using Throttle_call_via_agree [where via = via, OF Meq ag2 p [unfolded H2_def] ps [unfolded Hs2_def]]
    by simp
  from frame e r r2 show ?thesis by blast
qed

theorem entities_with_separate_dictionaries_independent_witness:
  "(reach same_class fresh
      (primary_host plain_throttle 2 3 4 (def_callable None ''Player.update'' False demo_body) (receiver_call 5 False)) \<union>
    reach same_class fresh
      (secondary_host 3 (def_callable None ''Player.update'' False demo_body) (receiver_call 5 False))) \<inter>
   (set (primary_host plain_throttle 2 3 4 (def_callable None ''Player.update'' False demo_body) (receiver_call 6 False) #
         same_class (primary_host plain_throttle 2 3 4 (def_callable None ''Player.update'' False demo_body)
           (receiver_call 6 False))) \<union>
    set (secondary_host 3 (def_callable None ''Player.update'' False demo_body) (receiver_call 6 False) #
         same_class (secondary_host 3 (def_callable None ''Player.update'' False demo_body)
           (receiver_call 6 False)))) = {} \<and>
   Object 6 \<in> set (Object 6 # same_class (Object 6)) \<and>
   throttle_attr (snd (invoke (Throttle_call_via same_class plain_throttle 2 3 4
        (def_callable None ''Player.update'' False demo_body)) (receiver_call 5 False) fresh)) (Object 6) =
     throttle_attr fresh (Object 6) \<and>
   fst (invoke (Throttle_call_via same_class plain_throttle 2 3 4
        (def_callable None ''Player.update'' False demo_body)) (receiver_call 5 False) fresh) =
     Inr (Value (Some 7)) \<and>
   fst (invoke (Throttle_call_via same_class plain_throttle 2 3 4
        (def_callable None ''Player.update'' False demo_body)) (receiver_call 6 False)
      ((snd (invoke (Throttle_call_via same_class plain_throttle 2 3 4
        (def_callable None ''Player.update'' False demo_body)) (receiver_call 5 False) fresh))\<lparr>now := 4\<rparr>)) =
     Inr (Value (Some 7))"
proof -
  let ?M = "def_callable None ''Player.update'' False demo_body :: (string, nat) callable"
  let ?W = "Throttle_call_via same_class plain_throttle 2 3 4 ?M"
  have sep: "(reach same_class fresh (primary_host plain_throttle 2 3 4 ?M (receiver_call 5 False)) \<union>
      reach same_class fresh (secondary_host 3 ?M (receiver_call 5 False))) \<inter>
     (set (primary_host plain_throttle 2 3 4 ?M (receiver_call 6 False) #
           same_class (primary_host plain_throttle 2 3 4 ?M (receiver_call 6 False))) \<union>
      set (secondary_host 3 ?M (receiver_call 6 False) #
           same_class (secondary_host 3 ?M (receiver_call 6 False)))) = {}"
    by (auto simp add: reach_def same_class_def fresh_def)
  have m: "Object 6 \<in> set (Object 6 # same_class (Object 6))" by simp
  have v: "fst (invoke ?W (receiver_call 5 False) fresh) = Inr (Value (Some 7))"
    by (simp add: demo_same_class_first)
  have w: "fst (invoke ?W (receiver_call 6 False) (fresh\<lparr>now := 4\<rparr>)) = Inr (Value (Some 7))"
    by (simp add: eval_via_defs eval_defs)
  note t = entities_with_separate_dictionaries_independent [OF sep, where t = 4]
  have f: "throttle_attr (snd (invoke ?W (receiver_call 5 False) fresh)) (Object 6) = throttle_attr fresh (Object 6)"
    using t [THEN conjunct1, rule_format, of "Object 6"] by simp
  have r: "fst (invoke ?W (receiver_call 6 False) ((snd (invoke ?W (receiver_call 5 False) fresh))\<lparr>now := 4\<rparr>)) =
      Inr (Value (Some 7))"
    using t [THEN conjunct2, THEN conjunct2, THEN conjunct1] w by simp
  from sep m f v r show ?thesis by blast
qed

text \<open>Claim C9 as stated fails.  Object 6 is a shallow copy of object 5, taken after the
  first call on 5 (at time 0, returning 7 at time 3): the two objects are distinct, yet
  object 6 finds the entry of object 5, and a call on object 6 at time 4 is answered with
  the stand-in without running the method, while the same call would have run the method
  had object 5 not been called.  Likewise for two instances of a class that carries a
  \<^verbatim>\<open>_throttle\<close> dictionary: the entry is created in the dictionary of the class, and the call
  on the second instance is held back by the call on the first.\<close>

theorem entities_sharing_dictionary_counterexample:
  "Object 6 \<noteq> Object 5 \<and>
   fst (invoke (Throttle_call_via shallow_copy plain_throttle 2 3 4
        (def_callable None ''Player.update'' False demo_body)) (receiver_call 5 False) fresh) =
     Inr (Value (Some 7)) \<and>
   get_entry_via shallow_copy fresh (Object 6) (ident plain_throttle) = None \<and>
   get_entry_via shallow_copy
     (snd (invoke (Throttle_call_via shallow_copy plain_throttle 2 3 4
        (def_callable None ''Player.update'' False demo_body)) (receiver_call 5 False) fresh))
     (Object 6) (ident plain_throttle) = Some \<lparr>locked = False, last_success = Some 3\<rparr> \<and>
   fst (invoke (Throttle_call_via shallow_copy plain_throttle 2 3 4
        (def_callable None ''Player.update'' False demo_body)) (receiver_call 6 False)
      ((snd (invoke (Throttle_call_via shallow_copy plain_throttle 2 3 4
        (def_callable None ''Player.update'' False demo_body)) (receiver_call 5 False) fresh))\<lparr>now := 4\<rparr>)) =
     Inr (Value None) \<and>
   executed (snd (invoke (Throttle_call_via shallow_copy plain_throttle 2 3 4
        (def_callable None ''Player.update'' False demo_body)) (receiver_call 6 False)
      ((snd (invoke (Throttle_call_via shallow_copy plain_throttle 2 3 4
        (def_callable None ''Player.update'' False demo_body)) (receiver_call 5 False) fresh))\<lparr>now := 4\<rparr>))) = 1 \<and>
   fst (invoke (Throttle_call_via shallow_copy plain_throttle 2 3 4
        (def_callable None ''Player.update'' False demo_body)) (receiver_call 6 False) (fresh\<lparr>now := 4\<rparr>)) =
     Inr (Value (Some 7)) \<and>
   fst (invoke (Throttle_call_via same_class plain_throttle 2 3 4
        (def_callable None ''Player.update'' False demo_body)) (receiver_call 5 False) class_dict) =
     Inr (Value (Some 7)) \<and>
   fst (invoke (Throttle_call_via same_class plain_throttle 2 3 4
        (def_callable None ''Player.update'' False demo_body)) (receiver_call 6 False)
      ((snd (invoke (Throttle_call_via same_class plain_throttle 2 3 4
        (def_callable None ''Player.update'' False demo_body)) (receiver_call 5 False) class_dict))\<lparr>now := 4\<rparr>)) =
     Inr (Value None) \<and>
   fst (invoke (Throttle_call_via same_class plain_throttle 2 3 4
        (def_callable None ''Player.update'' False demo_body)) (receiver_call 6 False) (class_dict\<lparr>now := 4\<rparr>)) =
     Inr (Value (Some 7))"
  by (simp add: demo_shallow_copy_first demo_class_dict_first) (simp add: eval_via_defs eval_defs)

end
